theory Spec2Isabelle
  imports Main "HOL-Library.Sublist" "HOL-Library.Multiset"
begin

section \<open>Python values used by redact.py\<close>

text \<open>
  The program is Python 2: a \<open>str\<close> is a byte string, modelled as \<open>string\<close>
  (a list of 8-bit characters), so \<open>len\<close> is \<open>length\<close>.  Exceptions are values:
  \<open>AttributeError\<close> is what \<open>Redacter.__init__\<close> and \<open>compile_regex\<close> raise,
  \<open>ReError\<close> is \<open>re.error\<close> of the regular expression library, \<open>OSError\<close> is what
  \<open>subprocess.call\<close> raises when the program cannot be run, \<open>KeyError\<close> is a failed
  dictionary lookup.
\<close>

datatype exn = AttributeError | ReError | OSError | KeyError

subsection \<open>Byte strings\<close>

definition is_space :: "char \<Rightarrow> bool" where
  "is_space c = (c \<in> set [CHR '' '', CHR 0x09, CHR 0x0A, CHR 0x0B, CHR 0x0C, CHR 0x0D])"

text \<open>\<open>s.strip()\<close>: white space removed at both ends.\<close>

definition str_strip :: "string \<Rightarrow> string" where
  "str_strip s = rev (dropWhile is_space (rev (dropWhile is_space s)))"

text \<open>\<open>s.startswith(p)\<close>.\<close>

definition startswith :: "string \<Rightarrow> string \<Rightarrow> bool" where
  "startswith s p = prefix p s"

text \<open>\<open>s.split(c)\<close> for a separator of one character: always at least one part.\<close>

fun str_split :: "char \<Rightarrow> string \<Rightarrow> string list" where
  "str_split c [] = [[]]"
| "str_split c (x # xs) =
     (if x = c then [] # str_split c xs
      else (x # hd (str_split c xs)) # tl (str_split c xs))"

text \<open>\<open>sep.join(parts)\<close>.\<close>

fun str_join :: "string \<Rightarrow> string list \<Rightarrow> string" where
  "str_join sep [] = []"
| "str_join sep [p] = p"
| "str_join sep (p # q # ps) = p @ sep @ str_join sep (q # ps)"

text \<open>
  \<open>s.replace(old, new)\<close>: every occurrence of \<open>old\<close>, found from the left and not
  overlapping, becomes \<open>new\<close>.  For the empty \<open>old\<close> Python puts \<open>new\<close> before every
  character and at the end.
\<close>

fun replace_scan :: "string \<Rightarrow> string \<Rightarrow> string \<Rightarrow> string" where
  "replace_scan old new [] = []"
| "replace_scan old new (c # cs) =
     (if prefix old (c # cs) then new @ replace_scan old new (drop (length old - 1) cs)
      else c # replace_scan old new cs)"

definition str_replace :: "string \<Rightarrow> string \<Rightarrow> string \<Rightarrow> string" where
  "str_replace old new s =
     (if old = [] then new @ concat (map (\<lambda>c. c # new) s) else replace_scan old new s)"

text \<open>\<open>'{0}'.format(n)\<close> for a counter: the decimal digits of \<open>n\<close>.\<close>

definition digit :: "nat \<Rightarrow> char" where
  "digit d = ''0123456789'' ! d"

fun decimal :: "nat \<Rightarrow> string" where
  "decimal n = (if n < 10 then [digit n] else decimal (n div 10) @ [digit (n mod 10)])"

declare decimal.simps [simp del]

subsection \<open>Dictionaries\<close>

text \<open>
  A \<open>dict\<close> from strings to strings is an association list with one entry per key,
  the entries in the order in which they were stored; \<open>iteritems\<close> yields them in the
  order of the list.  Python 2 does not specify that order.  CPython 2.7 yields the
  entries by their slot in the hash table, which is given by the hashes of the keys and,
  for keys that meet in one slot, by the order in which they were stored; it need not
  be the order in which they were stored (of the keys \<open>bc\<close> and \<open>ab\<close> it yields \<open>ab\<close>
  first, whichever was stored first).  The Redacter reads the order in one place only,
  \<open>sorted_items\<close>, where it decides in which order keys of the same length are
  replaced.  Two lists with the same entries in different orders stand for two dicts
  that are equal for \<open>==\<close> and need not iterate in the same order.
\<close>

type_synonym dict = "(string \<times> string) list"

text \<open>\<open>k in d\<close>.\<close>

definition dict_contains :: "dict \<Rightarrow> string \<Rightarrow> bool" where
  "dict_contains d k = (map_of d k \<noteq> None)"

text \<open>\<open>d[k]\<close>, raising \<open>KeyError\<close> for a missing key.\<close>

definition dict_getitem :: "dict \<Rightarrow> string \<Rightarrow> exn + string" where
  "dict_getitem d k = (case map_of d k of None \<Rightarrow> Inl KeyError | Some v \<Rightarrow> Inr v)"

text \<open>\<open>d[k] = v\<close>.\<close>

fun dict_setitem :: "dict \<Rightarrow> string \<Rightarrow> string \<Rightarrow> dict" where
  "dict_setitem [] k v = [(k, v)]"
| "dict_setitem ((k', v') # d) k v =
     (if k' = k then (k, v) # d else (k', v') # dict_setitem d k v)"

text \<open>
  \<open>sorted(d.iteritems(), key=lambda i: len(i[0]), reverse=True)\<close>: a stable sort, the
  longest key first; entries with keys of the same length keep the order of the dict.
\<close>

definition sorted_items :: "dict \<Rightarrow> (string \<times> string) list" where
  "sorted_items d = sort_key (\<lambda>i. - int (length (fst i))) d"

section \<open>The collaborators of the Redacter\<close>

text \<open>
  The module \<open>re\<close> is not part of the repository.  The Redacter uses three things of it,
  taken here as a parameter: \<open>re.compile\<close> (which raises \<open>re.error\<close> on a string that is
  no regular expression), the number of capturing groups of a compiled pattern, and
  \<open>findall\<close>, which for a pattern with one group returns the text of that group for
  every match, from left to right.
\<close>

record 'p re_module =
  re_compile :: "string \<Rightarrow> exn + 'p"
  re_groups :: "'p \<Rightarrow> nat"
  re_findall :: "'p \<Rightarrow> string \<Rightarrow> string list"

text \<open>
  \<open>subprocess.call([validator, secret], stdout=devnull)\<close>: the exit status of the
  program at the path \<open>validator\<close> run on \<open>secret\<close>, or \<open>OSError\<close>.
\<close>

type_synonym subprocess = "string \<Rightarrow> string \<Rightarrow> exn + int"

section \<open>The Redacter\<close>

record 'p redacter =
  substitution_string :: string
  patterns :: "'p list"
  substitutions :: dict
  counter :: nat
  validator :: "string option"

subsection \<open>compile_regex\<close>

definition compile_regex :: "'p re_module \<Rightarrow> string \<Rightarrow> exn + 'p" where
  "compile_regex re regex =
     (case re_compile re regex of
        Inl e \<Rightarrow> Inl e
      | Inr compiled \<Rightarrow>
          if re_groups re compiled > 1 then Inl AttributeError
          else if re_groups re compiled = 0 then re_compile re (''('' @ regex @ '')'')
          else Inr compiled)"

text \<open>\<open>[Redacter.compile_regex(r) for r in patterns]\<close>: the first exception ends it.\<close>

fun compile_all :: "'p re_module \<Rightarrow> string list \<Rightarrow> exn + 'p list" where
  "compile_all re [] = Inr []"
| "compile_all re (r # rs) =
     (case compile_regex re r of
        Inl e \<Rightarrow> Inl e
      | Inr c \<Rightarrow> (case compile_all re rs of Inl e \<Rightarrow> Inl e | Inr cs \<Rightarrow> Inr (c # cs)))"

subsection \<open>__init__\<close>

text \<open>
  \<open>not patterns\<close> holds for \<open>None\<close> and for the empty list, \<open>not substitutions\<close> for
  \<open>None\<close> and for the empty dict.
\<close>

definition falsy :: "'a list option \<Rightarrow> bool" where
  "falsy x = (case x of None \<Rightarrow> True | Some xs \<Rightarrow> xs = [])"

definition Redacter_init ::
  "'p re_module \<Rightarrow> string \<Rightarrow> string list option \<Rightarrow> dict option \<Rightarrow> string option
     \<Rightarrow> exn + 'p redacter" where
  "Redacter_init re subst_string pats subs valid =
     (if falsy pats \<and> falsy subs then Inl AttributeError
      else
        case (if \<not> falsy pats then compile_all re (the pats) else Inr []) of
          Inl e \<Rightarrow> Inl e
        | Inr compiled \<Rightarrow>
            Inr \<lparr> substitution_string = subst_string,
                  patterns = compiled,
                  substitutions = (if \<not> falsy subs then the subs else []),
                  counter = 0,
                  validator = valid \<rparr>)"

subsection \<open>read_uncommented_lines and create\<close>

text \<open>
  The files are a parameter: for a path, the lines that iterating over the open file
  yields (each with its line end), or \<open>None\<close> when the file cannot be read.  The
  path itself is \<open>None\<close> when the configuration has no file of that kind; \<open>open\<close>
  raises on it and the generator yields nothing, as for an unreadable file.
\<close>

type_synonym files = "string \<Rightarrow> string list option"

definition read_uncommented_lines :: "files \<Rightarrow> string option \<Rightarrow> string list" where
  "read_uncommented_lines fs filename =
     (case filename of
        None \<Rightarrow> []
      | Some f \<Rightarrow>
          (case fs f of
             None \<Rightarrow> []
           | Some ls \<Rightarrow> filter (\<lambda>line. \<not> (line = [] \<or> startswith line ''#'')) (map str_strip ls)))"

text \<open>
  One entry of the dict comprehension of \<open>create\<close>, from \<open>parts = line.split('=')\<close>:
  the key is \<open>'='.join(parts[:-1]).strip()\<close>, the value \<open>parts[-1].strip()\<close>.
\<close>

definition substitution_entry :: "string list \<Rightarrow> string \<times> string" where
  "substitution_entry parts = (str_strip (str_join ''='' (butlast parts)), str_strip (last parts))"

text \<open>A dict comprehension: the entries are stored one after the other.\<close>

definition dict_of :: "(string \<times> string) list \<Rightarrow> dict" where
  "dict_of entries = foldl (\<lambda>d (k, v). dict_setitem d k v) [] entries"

text \<open>
  \<open>create\<close> returns \<open>None\<close> when the constructor raises \<open>AttributeError\<close>; any other
  exception of the constructor is not caught.
\<close>

definition create ::
  "'p re_module \<Rightarrow> files \<Rightarrow> string \<Rightarrow> string option \<Rightarrow> string option \<Rightarrow> string option
     \<Rightarrow> exn + 'p redacter option" where
  "create re fs subst_string regex_file substitutions_file validator_file =
     (let pats = read_uncommented_lines fs regex_file;
          subs = dict_of (map (\<lambda>line. substitution_entry (str_split (CHR ''='') line))
                              (read_uncommented_lines fs substitutions_file))
      in case Redacter_init re subst_string (Some pats) (Some subs) validator_file of
           Inl e \<Rightarrow> (if e = AttributeError then Inr None else Inl e)
         | Inr r \<Rightarrow> Inr (Some r))"

subsection \<open>validate\<close>

text \<open>\<open>not self.validator\<close> holds for \<open>None\<close> and for the empty path.\<close>

definition validate :: "subprocess \<Rightarrow> 'p redacter \<Rightarrow> string \<Rightarrow> exn + bool" where
  "validate call r secret =
     (case validator r of
        None \<Rightarrow> Inr True
      | Some v \<Rightarrow>
          if v = [] then Inr True
          else (case call v secret of Inl e \<Rightarrow> Inl e | Inr status \<Rightarrow> Inr (status = 0)))"

subsection \<open>redact\<close>

text \<open>
  \<open>redact\<close> changes the Redacter in place and may raise in the middle of the discovery
  loops, so every part of it returns the Redacter as it is at that moment together
  with the exception, if any.

  The body of the inner loop for a secret that is accepted: the next placeholder is
  recorded and the counter goes up by one.
\<close>

definition assign :: "'p redacter \<Rightarrow> string \<Rightarrow> 'p redacter" where
  "assign r secret =
     r \<lparr> counter := counter r + 1,
         substitutions :=
           dict_setitem (substitutions r) secret (substitution_string r @ decimal (counter r)) \<rparr>"

text \<open>The inner loop, \<open>for secret in pattern.findall(string)\<close>.\<close>

fun redact_secrets ::
  "subprocess \<Rightarrow> string list \<Rightarrow> 'p redacter \<Rightarrow> exn option \<times> 'p redacter" where
  "redact_secrets call [] r = (None, r)"
| "redact_secrets call (secret # rest) r =
     (if dict_contains (substitutions r) secret then redact_secrets call rest r
      else
        case validate call r secret of
          Inl e \<Rightarrow> (Some e, r)
        | Inr ok \<Rightarrow>
            if ok then redact_secrets call rest (assign r secret)
            else redact_secrets call rest r)"

text \<open>The outer loop, \<open>for pattern in self.patterns\<close>.\<close>

fun redact_patterns ::
  "'p re_module \<Rightarrow> subprocess \<Rightarrow> string \<Rightarrow> 'p list \<Rightarrow> 'p redacter
     \<Rightarrow> exn option \<times> 'p redacter" where
  "redact_patterns re call string [] r = (None, r)"
| "redact_patterns re call string (pattern # rest) r =
     (case redact_secrets call (re_findall re pattern string) r of
        (Some e, r') \<Rightarrow> (Some e, r')
      | (None, r') \<Rightarrow> redact_patterns re call string rest r')"

text \<open>The replacement loop over the sorted entries.\<close>

fun redact_replace :: "dict \<Rightarrow> (string \<times> string) list \<Rightarrow> string \<Rightarrow> exn + string" where
  "redact_replace d [] string = Inr string"
| "redact_replace d ((secret, substitution) # rest) string =
     (case dict_getitem d secret of
        Inl e \<Rightarrow> Inl e
      | Inr v \<Rightarrow> redact_replace d rest (str_replace secret v string))"

definition redact ::
  "'p re_module \<Rightarrow> subprocess \<Rightarrow> 'p redacter \<Rightarrow> string \<Rightarrow> (exn + string) \<times> 'p redacter" where
  "redact re call r string =
     (case redact_patterns re call string (patterns r) r of
        (Some e, r') \<Rightarrow> (Inl e, r')
      | (None, r') \<Rightarrow>
          (redact_replace (substitutions r') (sorted_items (substitutions r')) string, r'))"

text \<open>
  A run of one Redacter: \<open>main\<close> calls \<open>redact\<close> on line after line, and an exception
  ends the run.
\<close>

fun redact_lines ::
  "'p re_module \<Rightarrow> subprocess \<Rightarrow> 'p redacter \<Rightarrow> string list
     \<Rightarrow> (exn + string list) \<times> 'p redacter" where
  "redact_lines re call r [] = (Inr [], r)"
| "redact_lines re call r (line # rest) =
     (case redact re call r line of
        (Inl e, r') \<Rightarrow> (Inl e, r')
      | (Inr out, r') \<Rightarrow>
          (case redact_lines re call r' rest of
             (Inl e, r'') \<Rightarrow> (Inl e, r'')
           | (Inr outs, r'') \<Rightarrow> (Inr (out # outs), r'')))"

section \<open>Notions used to state the properties\<close>

text \<open>
  The candidates of a line, in the order in which the two loops of \<open>redact\<close> meet
  them: pattern after pattern, and for one pattern in the order of \<open>findall\<close>.
\<close>

definition candidates :: "'p re_module \<Rightarrow> 'p redacter \<Rightarrow> string \<Rightarrow> string list" where
  "candidates re r string = concat (map (\<lambda>p. re_findall re p string) (patterns r))"

text \<open>Every element of a list once, at the place of its first occurrence.\<close>

definition firsts :: "'a list \<Rightarrow> 'a list" where
  "firsts xs = rev (remdups (rev xs))"

text \<open>
  The secrets that a call of \<open>redact\<close> discovers, in the order of their discovery: the
  candidates that are not yet in the table and that the validator accepts, each once,
  at the place where it is first met.
\<close>

definition discovered :: "'p re_module \<Rightarrow> subprocess \<Rightarrow> 'p redacter \<Rightarrow> string \<Rightarrow> string list" where
  "discovered re call r string =
     firsts (filter (\<lambda>s. \<not> dict_contains (substitutions r) s \<and> validate call r s = Inr True)
                    (candidates re r string))"

text \<open>The list that an optional argument stands for: none for \<open>None\<close>.\<close>

definition some_list :: "'a list option \<Rightarrow> 'a list" where
  "some_list x = (case x of None \<Rightarrow> [] | Some xs \<Rightarrow> xs)"


text \<open>
  \<open>valid_regex\<close>: \<open>re.compile\<close> compiles the pattern and, if the pattern has no group,
  also the pattern wrapped in \<open>(\<close> and \<open>)\<close>.  Nothing is said about the number of
  groups beyond that.
\<close>

definition valid_regex :: "'p re_module \<Rightarrow> string \<Rightarrow> bool" where
  "valid_regex re p =
     (case re_compile re p of
        Inl e \<Rightarrow> False
      | Inr c \<Rightarrow>
          re_groups re c \<noteq> 0
          \<or> (case re_compile re (''('' @ p @ '')'') of Inl e \<Rightarrow> False | Inr c' \<Rightarrow> True))"

text \<open>A pattern with more than one capturing group.\<close>

definition many_groups :: "'p re_module \<Rightarrow> string \<Rightarrow> bool" where
  "many_groups re p =
     (case re_compile re p of Inl e \<Rightarrow> False | Inr c \<Rightarrow> re_groups re c > 1)"

text \<open>A pattern that \<open>re.compile\<close> compiles without a capturing group.\<close>

definition no_group :: "'p re_module \<Rightarrow> string \<Rightarrow> bool" where
  "no_group re p =
     (case re_compile re p of Inl e \<Rightarrow> False | Inr c \<Rightarrow> re_groups re c = 0)"

text \<open>
  A pattern is accepted when \<open>re.compile\<close> compiles it with one capturing group, or
  with none and then also compiles the pattern wrapped in \<open>(\<close> and \<open>)\<close>.
\<close>

definition accepted :: "'p re_module \<Rightarrow> string \<Rightarrow> bool" where
  "accepted re p =
     (case re_compile re p of
        Inl e \<Rightarrow> False
      | Inr c \<Rightarrow>
          re_groups re c = 1
          \<or> (re_groups re c = 0
              \<and> (case re_compile re (''('' @ p @ '')'') of Inl e \<Rightarrow> False | Inr c' \<Rightarrow> True)))"

text \<open>\<open>s.find(sub)\<close> for a \<open>sub\<close> that occurs in \<open>s\<close>: where it is first found.\<close>

fun str_find :: "string \<Rightarrow> string \<Rightarrow> nat" where
  "str_find sub [] = 0"
| "str_find sub (c # cs) = (if prefix sub (c # cs) then 0 else Suc (str_find sub cs))"

text \<open>
  The placeholders that \<open>n\<close> assignments yield when the counter stands at \<open>c\<close>.
\<close>

definition placeholders :: "string \<Rightarrow> nat \<Rightarrow> nat \<Rightarrow> string list" where
  "placeholders base c n = map (\<lambda>i. base @ decimal i) [c ..< c + n]"

text \<open>
  \<open>grows r r'\<close>: the Redacter \<open>r'\<close> is \<open>r\<close> after some secrets, all different and none of
  them a key of the table of \<open>r\<close>, have been given the next placeholders in turn;
  nothing else has changed.
\<close>

definition grows :: "'p redacter \<Rightarrow> 'p redacter \<Rightarrow> bool" where
  "grows r r' \<longleftrightarrow>
     (\<exists>news. distinct news \<and> (\<forall>s \<in> set news. \<not> dict_contains (substitutions r) s) \<and>
        r' = r \<lparr> substitutions :=
                    substitutions r
                    @ zip news (placeholders (substitution_string r) (counter r) (length news)),
                  counter := counter r + length news \<rparr>)"

section \<open>A regular expression module to run the model\<close>

text \<open>
  To evaluate the Redacter on concrete lines, \<open>py_re\<close> implements a fragment of the
  module \<open>re\<close>: literal characters, \<open>.\<close>, the classes \<open>\d \D \s \S \w \W\<close>, escaped
  punctuation, \<open>^\<close> and \<open>$\<close>, groups \<open>(...)\<close> and \<open>(?:...)\<close>, alternation and the greedy
  repetitions \<open>* + ?\<close>.  It matches by backtracking, as \<open>re\<close> does: the results of
  \<open>rmatch\<close> are listed in the order in which a backtracking matcher tries them, and
  the first one is the match.  On syntax outside the fragment (character sets, counted
  and lazy repetitions, the other \<open>(?\<close> forms, escapes of letters and digits) \<open>py_compile\<close>
  answers \<open>ReError\<close>, which \<open>re\<close> would not; nothing below is evaluated there.  The
  general theorems hold for every module, not only for this one.
\<close>

datatype cclass = Lit char | AnyChar | Digit | NonDigit | Space | NonSpace | Word | NonWord

datatype regex =
    Atom cclass
  | Bol
  | Eol
  | Eps
  | Seq regex regex
  | Alt regex regex
  | Star regex
  | Plus regex
  | Opt regex
  | Group regex

definition is_digit :: "char \<Rightarrow> bool" where
  "is_digit c = (c \<in> set ''0123456789'')"

definition is_word :: "char \<Rightarrow> bool" where
  "is_word c = (c \<in> set ''abcdefghijklmnopqrstuvwxyzABCDEFGHIJKLMNOPQRSTUVWXYZ0123456789_'')"

fun in_class :: "cclass \<Rightarrow> char \<Rightarrow> bool" where
  "in_class (Lit a) c = (c = a)"
| "in_class AnyChar c = (c \<noteq> CHR 0x0A)"
| "in_class Digit c = is_digit c"
| "in_class NonDigit c = (\<not> is_digit c)"
| "in_class Space c = is_space c"
| "in_class NonSpace c = (\<not> is_space c)"
| "in_class Word c = is_word c"
| "in_class NonWord c = (\<not> is_word c)"

text \<open>The number of capturing groups, \<open>compiled.groups\<close>.\<close>

fun py_groups :: "regex \<Rightarrow> nat" where
  "py_groups (Seq a b) = py_groups a + py_groups b"
| "py_groups (Alt a b) = py_groups a + py_groups b"
| "py_groups (Star a) = py_groups a"
| "py_groups (Plus a) = py_groups a"
| "py_groups (Opt a) = py_groups a"
| "py_groups (Group a) = Suc (py_groups a)"
| "py_groups _ = 0"

fun weight :: "regex \<Rightarrow> nat" where
  "weight (Seq a b) = Suc (weight a + weight b)"
| "weight (Alt a b) = Suc (weight a + weight b)"
| "weight (Star a) = Suc (weight a)"
| "weight (Plus a) = Suc (Suc (weight a))"
| "weight (Opt a) = Suc (weight a)"
| "weight (Group a) = Suc (weight a)"
| "weight _ = 0"

text \<open>
  A state of the matcher: the rest of the text and the text of the group, if the group
  has matched.  \<open>rmatch n r (s, g)\<close> lists the states after \<open>r\<close> has matched at the start
  of \<open>s\<close>, where \<open>n\<close> is the length of the whole text.  A repetition tries one more
  round before it tries to stop, and a round that consumes nothing is not repeated.
\<close>

type_synonym mstate = "string \<times> string option"

function (sequential) rmatch :: "nat \<Rightarrow> regex \<Rightarrow> mstate \<Rightarrow> mstate list" where
  "rmatch n (Atom k) (s, g) =
     (case s of [] \<Rightarrow> [] | c # cs \<Rightarrow> if in_class k c then [(cs, g)] else [])"
| "rmatch n Bol (s, g) = (if length s = n then [(s, g)] else [])"
| "rmatch n Eol (s, g) = (if s = [] \<or> s = [CHR 0x0A] then [(s, g)] else [])"
| "rmatch n Eps (s, g) = [(s, g)]"
| "rmatch n (Seq a b) (s, g) = concat (map (rmatch n b) (rmatch n a (s, g)))"
| "rmatch n (Alt a b) (s, g) = rmatch n a (s, g) @ rmatch n b (s, g)"
| "rmatch n (Opt a) (s, g) = rmatch n a (s, g) @ [(s, g)]"
| "rmatch n (Group a) (s, g) =
     map (\<lambda>(s', g'). (s', Some (take (length s - length s') s))) (rmatch n a (s, g))"
| "rmatch n (Plus a) (s, g) = concat (map (rmatch n (Star a)) (rmatch n a (s, g)))"
| "rmatch n (Star a) (s, g) =
     concat (map (\<lambda>(s', g'). if length s' < length s then rmatch n (Star a) (s', g') else [])
                 (rmatch n a (s, g)))
     @ [(s, g)]"
  by pat_completeness auto
termination
  by (relation "measures [\<lambda>(n, r, s, g). weight r, \<lambda>(n, r, s, g). length s]") auto

text \<open>
  \<open>findall\<close>: the matches from left to right.  After a match the search goes on where
  the match ended, and one character further after an empty match.  The item of a
  match is the whole match for a pattern without a group, and the text of the group
  (empty when the group took no part in the match) for a pattern with one group.
\<close>

function findall_from :: "nat \<Rightarrow> regex \<Rightarrow> string \<Rightarrow> string list" where
  "findall_from n r s =
     (case rmatch n r (s, None) of
        [] \<Rightarrow> (case s of [] \<Rightarrow> [] | c # cs \<Rightarrow> findall_from n r cs)
      | (s', g) # _ \<Rightarrow>
          (if py_groups r = 0 then take (length s - length s') s
           else case g of None \<Rightarrow> [] | Some t \<Rightarrow> t)
          # (if length s' < length s then findall_from n r s'
             else case s of [] \<Rightarrow> [] | c # cs \<Rightarrow> findall_from n r cs))"
  by pat_completeness auto
termination
  by (relation "measure (\<lambda>(n, r, s). length s)") auto

declare findall_from.simps [simp del]

definition py_findall :: "regex \<Rightarrow> string \<Rightarrow> string list" where
  "py_findall r s = findall_from (length s) r s"

text \<open>
  \<open>re.compile\<close>: the parser keeps a stack of the groups that are open; each frame
  holds the finished branches of its alternation and the items of the branch being
  read, both in reverse.
\<close>

fun mk_seq :: "regex list \<Rightarrow> regex" where
  "mk_seq [] = Eps"
| "mk_seq [x] = x"
| "mk_seq (x # y # xs) = Seq x (mk_seq (y # xs))"

fun mk_alt :: "regex list \<Rightarrow> regex" where
  "mk_alt [] = Eps"
| "mk_alt [x] = x"
| "mk_alt (x # y # xs) = Alt x (mk_alt (y # xs))"

record frame =
  frame_capturing :: bool
  frame_branches :: "regex list"
  frame_items :: "regex list"

definition open_frame :: "bool \<Rightarrow> frame" where
  "open_frame cap = \<lparr> frame_capturing = cap, frame_branches = [], frame_items = [] \<rparr>"

definition close_frame :: "frame \<Rightarrow> regex" where
  "close_frame f = mk_alt (rev (mk_seq (rev (frame_items f)) # frame_branches f))"

definition push_item :: "regex \<Rightarrow> frame \<Rightarrow> frame" where
  "push_item x f = f \<lparr> frame_items := x # frame_items f \<rparr>"

fun repeatable :: "regex \<Rightarrow> bool" where
  "repeatable (Star a) = False"
| "repeatable (Plus a) = False"
| "repeatable (Opt a) = False"
| "repeatable Bol = False"
| "repeatable Eol = False"
| "repeatable _ = True"

definition repeat :: "char \<Rightarrow> regex \<Rightarrow> regex" where
  "repeat c x = (if c = CHR ''*'' then Star x else if c = CHR ''+'' then Plus x else Opt x)"

definition escape :: "char \<Rightarrow> cclass option" where
  "escape d =
     (if d = CHR ''d'' then Some Digit else if d = CHR ''D'' then Some NonDigit
      else if d = CHR ''s'' then Some Space else if d = CHR ''S'' then Some NonSpace
      else if d = CHR ''w'' then Some Word else if d = CHR ''W'' then Some NonWord
      else if d = CHR ''n'' then Some (Lit (CHR 0x0A))
      else if d = CHR ''t'' then Some (Lit (CHR 0x09))
      else if d = CHR ''r'' then Some (Lit (CHR 0x0D))
      else if is_word d then None
      else Some (Lit d))"

text \<open>The kinds of character that the parser tells apart.\<close>

datatype token = Open | Close | Bar | Repeat | Backslash | Unsupported | Dot | Caret | Dollar | Plain

definition token_of :: "char \<Rightarrow> token" where
  "token_of c =
     (if c = CHR ''('' then Open
      else if c = CHR '')'' then Close
      else if c = CHR ''|'' then Bar
      else if c = CHR ''*'' \<or> c = CHR ''+'' \<or> c = CHR ''?'' then Repeat
      else if c = CHR 0x5C then Backslash
      else if c = CHR ''['' \<or> c = CHR ''{'' then Unsupported
      else if c = CHR ''.'' then Dot
      else if c = CHR ''^'' then Caret
      else if c = CHR ''$'' then Dollar
      else Plain)"

text \<open>
  One step of the parser on the character \<open>c\<close>, with the rest \<open>cs\<close> of the pattern
  after it: the new stack and the number of further characters that the step has
  consumed, or \<open>None\<close> for a pattern that is refused.
\<close>

fun parse_step :: "frame list \<Rightarrow> char \<Rightarrow> string \<Rightarrow> (frame list \<times> nat) option" where
  "parse_step [] c cs = None"
| "parse_step (f # st) c cs =
     (case token_of c of
        Open \<Rightarrow>
          (case cs of
             [] \<Rightarrow> None
           | d # ds \<Rightarrow>
               if d = CHR ''?'' then
                 (case ds of
                    [] \<Rightarrow> None
                  | e # es \<Rightarrow>
                      if e = CHR '':'' then Some (open_frame False # f # st, 2) else None)
               else Some (open_frame True # f # st, 0))
      | Close \<Rightarrow>
          (case st of
             [] \<Rightarrow> None
           | f' # st' \<Rightarrow>
               Some (push_item (if frame_capturing f then Group (close_frame f)
                                else close_frame f) f' # st', 0))
      | Bar \<Rightarrow>
          Some (f \<lparr> frame_branches := mk_seq (rev (frame_items f)) # frame_branches f,
                     frame_items := [] \<rparr> # st, 0)
      | Repeat \<Rightarrow>
          (case frame_items f of
             [] \<Rightarrow> None
           | x # xs \<Rightarrow>
               if repeatable x then Some (f \<lparr> frame_items := repeat c x # xs \<rparr> # st, 0)
               else None)
      | Backslash \<Rightarrow>
          (case cs of
             [] \<Rightarrow> None
           | d # ds \<Rightarrow>
               (case escape d of
                  None \<Rightarrow> None
                | Some k \<Rightarrow> Some (push_item (Atom k) f # st, 1)))
      | Unsupported \<Rightarrow> None
      | Dot \<Rightarrow> Some (push_item (Atom AnyChar) f # st, 0)
      | Caret \<Rightarrow> Some (push_item Bol f # st, 0)
      | Dollar \<Rightarrow> Some (push_item Eol f # st, 0)
      | Plain \<Rightarrow> Some (push_item (Atom (Lit c)) f # st, 0))"

fun parse :: "frame list \<Rightarrow> string \<Rightarrow> exn + regex" where
  "parse stack [] = (case stack of [f] \<Rightarrow> Inr (close_frame f) | _ \<Rightarrow> Inl ReError)"
| "parse stack (c # cs) =
     (case parse_step stack c cs of
        None \<Rightarrow> Inl ReError
      | Some (stack', skip) \<Rightarrow> parse stack' (drop skip cs))"

definition py_compile :: "string \<Rightarrow> exn + regex" where
  "py_compile s = parse [open_frame False] s"

definition py_re :: "regex re_module" where
  "py_re = \<lparr> re_compile = py_compile, re_groups = py_groups, re_findall = py_findall \<rparr>"

text \<open>
  The inline flag \<open>(?x)\<close>.  When a pattern holds this flag, \<open>re\<close> parses the pattern
  once as it stands and then once more in verbose mode, in which white space is skipped
  and \<open>#\<close> starts a comment that runs to the end of the line, unless a backslash stands
  before them; the flag itself stands for nothing, wherever it is written.
  \<open>verbose_re\<close> is \<open>py_re\<close> with this flag.  In it the pattern \<open>(?x)a # c\<close> compiles
  (to the pattern \<open>a\<close>, without a group), and the same pattern wrapped in \<open>(\<close> and \<open>)\<close>
  is refused, because the closing parenthesis is part of the comment.
\<close>

fun drop_flag :: "string \<Rightarrow> string" where
  "drop_flag [] = []"
| "drop_flag (c # cs) =
     (if c = CHR 0x5C then (case cs of [] \<Rightarrow> [c] | d # ds \<Rightarrow> c # d # drop_flag ds)
      else if prefix ''(?x)'' (c # cs) then drop_flag (drop 3 cs)
      else c # drop_flag cs)"

text \<open>The pattern as verbose mode reads it; \<open>comment\<close> holds inside a comment.\<close>

fun strip_verbose :: "bool \<Rightarrow> string \<Rightarrow> string" where
  "strip_verbose comment [] = []"
| "strip_verbose True (c # cs) = strip_verbose (c \<noteq> CHR 0x0A) cs"
| "strip_verbose False (c # cs) =
     (if c = CHR 0x5C then (case cs of [] \<Rightarrow> [c] | d # ds \<Rightarrow> c # d # strip_verbose False ds)
      else if is_space c then strip_verbose False cs
      else if c = CHR ''#'' then strip_verbose True cs
      else c # strip_verbose False cs)"

definition verbose_compile :: "string \<Rightarrow> exn + regex" where
  "verbose_compile s =
     (if drop_flag s = s then py_compile s
      else case py_compile (drop_flag s) of
             Inl e \<Rightarrow> Inl e
           | Inr r \<Rightarrow> py_compile (strip_verbose False (drop_flag s)))"

definition verbose_re :: "regex re_module" where
  "verbose_re = \<lparr> re_compile = verbose_compile, re_groups = py_groups, re_findall = py_findall \<rparr>"

text \<open>
  The stack of the parser while it reads a pattern inside one more capturing group:
  the bottom frame is the frame of that group, and the frame \<open>g\<close> below it is the
  frame around the group.
\<close>

fun wrap_stack :: "frame \<Rightarrow> frame list \<Rightarrow> frame list" where
  "wrap_stack g [] = []"
| "wrap_stack g [f] = [f \<lparr> frame_capturing := True \<rparr>, g]"
| "wrap_stack g (f # f' # st) = f # wrap_stack g (f' # st)"

section \<open>Values used to run the model\<close>

text \<open>The pattern \<open>secret: (\S+)\<close> of \<open>test_redact_with_patterns\<close>.\<close>

definition secret_colon :: string where
  "secret_colon = ''secret: ('' @ [CHR 0x5C] @ ''S+)''"

text \<open>The pattern \<open>\d+\.\d+\.\d+\.\d+\<close> of \<open>test_redact_with_validator\<close>.\<close>

definition dotted_quad :: string where
  "dotted_quad = [CHR 0x5C] @ ''d+'' @ [CHR 0x5C] @ ''.'' @ [CHR 0x5C] @ ''d+''
     @ [CHR 0x5C] @ ''.'' @ [CHR 0x5C] @ ''d+'' @ [CHR 0x5C] @ ''.'' @ [CHR 0x5C] @ ''d+''"

text \<open>A machine on which no program can be run.\<close>

definition no_programs :: subprocess where
  "no_programs v secret = Inl OSError"

text \<open>
  A machine with one validator, at the path \<open>ipv4_address\<close>, which exits with 0 for the
  address 10.10.255.1 and with 1 for everything else.
\<close>

definition one_validator :: subprocess where
  "one_validator v secret =
     (if v = ''ipv4_address'' then Inr (if secret = ''10.10.255.1'' then 0 else 1)
      else Inl OSError)"

text \<open>The pattern \<open>A\S*\<close> of \<open>test_redact_with_patterns_substring\<close>.\<close>

definition a_pattern :: string where
  "a_pattern = ''A'' @ [CHR 0x5C] @ ''S*''"

text \<open>
  The Redacter of \<open>test_redact_with_patterns_and_substitutions\<close>, as
  \<open>Redacter('redact', patterns=[r'secret: (\S+)'], substitutions={'test': 'x'})\<close>
  constructs it.
\<close>

definition seeded_redacter :: "regex redacter" where
  "seeded_redacter =
     \<lparr> substitution_string = ''redact'',
       patterns = [mk_seq (map (\<lambda>c. Atom (Lit c)) ''secret: '' @ [Group (Plus (Atom NonSpace))])],
       substitutions = [(''test'', ''x'')],
       counter = 0,
       validator = None \<rparr>"

text \<open>
  The Redacter of \<open>test_redact_with_patterns_substring\<close>, as
  \<open>Redacter('redact', patterns=[r'A\S*'])\<close> constructs it.
\<close>

definition substring_redacter :: "regex redacter" where
  "substring_redacter =
     \<lparr> substitution_string = ''redact'',
       patterns = [Group (Seq (Atom (Lit CHR ''A'')) (Star (Atom NonSpace)))],
       substitutions = [],
       counter = 0,
       validator = None \<rparr>"

text \<open>
  The Redacter of \<open>test_redact_with_patterns\<close>, as
  \<open>Redacter('redact', patterns=[r'secretA', 'secret: (\S+)'])\<close> constructs it.
\<close>

definition two_pattern_redacter :: "regex redacter" where
  "two_pattern_redacter =
     \<lparr> substitution_string = ''redact'',
       patterns = [Group (mk_seq (map (\<lambda>c. Atom (Lit c)) ''secretA'')),
                   mk_seq (map (\<lambda>c. Atom (Lit c)) ''secret: '' @ [Group (Plus (Atom NonSpace))])],
       substitutions = [],
       counter = 0,
       validator = None \<rparr>"

text \<open>
  The Redacter of \<open>test_redact_with_validator\<close>, as
  \<open>Redacter('redact', patterns=[r'\d+\.\d+\.\d+\.\d+'], validator='ipv4_address')\<close>
  constructs it, and the same Redacter constructed with \<open>substitutions={'10.10': 'net'}\<close>.
\<close>

definition ip_redacter :: "regex redacter" where
  "ip_redacter =
     \<lparr> substitution_string = ''redact'',
       patterns = [Group (mk_seq [Plus (Atom Digit), Atom (Lit CHR ''.''), Plus (Atom Digit),
                                  Atom (Lit CHR ''.''), Plus (Atom Digit), Atom (Lit CHR ''.''),
                                  Plus (Atom Digit)])],
       substitutions = [],
       counter = 0,
       validator = Some ''ipv4_address'' \<rparr>"

definition seeded_ip_redacter :: "regex redacter" where
  "seeded_ip_redacter = ip_redacter \<lparr> substitutions := [(''10.10'', ''net'')] \<rparr>"

text \<open>
  The Redacter of \<open>test_redact_with_validator\<close> after the line \<open>10.10.255.1\<close>: the
  address is in the table with the placeholder \<open>redact0\<close>.
\<close>

definition known_ip_redacter :: "regex redacter" where
  "known_ip_redacter =
     ip_redacter \<lparr> substitutions := [(''10.10.255.1'', ''redact0'')], counter := 1 \<rparr>"

text \<open>
  Files with one substitutions file, which holds a comment, a blank line and two
  entries, the first with an \<open>=\<close> in its cleartext.
\<close>

definition example_files :: files where
  "example_files path =
     (if path = ''substitutions/secret'' then
        Some [''# known secrets'' @ [CHR 0x0A],
              [CHR 0x0A],
              ''a=b = x '' @ [CHR 0x0A],
              '' secretA = y'' @ [CHR 0x0A]]
      else None)"





section \<open>Dictionaries and strings: basic facts\<close>

lemma dict_contains_fst: "dict_contains d k \<longleftrightarrow> k \<in> fst ` set d"
  by (simp add: dict_contains_def map_of_eq_None_iff)

lemma dict_setitem_new: "\<not> dict_contains d k \<Longrightarrow> dict_setitem d k v = d @ [(k, v)]"
  by (induction d) (auto simp: dict_contains_def)

lemma map_of_append_Some: "map_of xs k = Some v \<Longrightarrow> map_of (xs @ ys) k = Some v"
  by (simp add: map_add_Some_iff)

lemma prefix_sublist: "prefix old s \<Longrightarrow> sublist old s"
  by (auto simp: prefix_def sublist_def intro: exI [of _ "[]"])

lemma replace_scan_absent: "\<not> sublist old s \<Longrightarrow> replace_scan old new s = s"
proof (induction s)
  case Nil
  then show ?case by simp
next
  case (Cons c cs)
  have "\<not> prefix old (c # cs)"
    using Cons.prems prefix_sublist by blast
  moreover have "\<not> sublist old cs"
    using Cons.prems by (auto simp: sublist_Cons_right)
  ultimately show ?case
    using Cons.IH by simp
qed

lemma str_replace_absent: "\<not> sublist old s \<Longrightarrow> str_replace old new s = s"
  by (cases "old = []") (auto simp: str_replace_def replace_scan_absent)

section \<open>The discovery loops: what they leave alone\<close>

lemma assign_fields:
  "patterns (assign r s) = patterns r"
  "substitution_string (assign r s) = substitution_string r"
  "validator (assign r s) = validator r"
  "counter (assign r s) = Suc (counter r)"
  by (simp_all add: assign_def)

lemma assign_substitutions:
  "\<not> dict_contains (substitutions r) s \<Longrightarrow>
     substitutions (assign r s) =
       substitutions r @ [(s, substitution_string r @ decimal (counter r))]"
  by (simp add: assign_def dict_setitem_new)

lemma redact_secrets_extends:
  "\<exists>new. substitutions (snd (redact_secrets call cs r)) = substitutions r @ new"
proof (induction cs arbitrary: r)
  case Nil
  show ?case by simp
next
  case (Cons c cs)
  show ?case
  proof (cases "dict_contains (substitutions r) c")
    case True
    then show ?thesis using Cons.IH [of r] by simp
  next
    case absent: False
    show ?thesis
    proof (cases "validate call r c")
      case (Inl e)
      then show ?thesis using absent by simp
    next
      case (Inr ok)
      show ?thesis
      proof (cases ok)
        case True
        obtain new where "substitutions (snd (redact_secrets call cs (assign r c)))
            = substitutions (assign r c) @ new"
          using Cons.IH [of "assign r c"] by blast
        then show ?thesis
          using absent Inr True by (simp add: assign_substitutions)
      next
        case False
        then show ?thesis using absent Inr Cons.IH [of r] by simp
      qed
    qed
  qed
qed

lemma redact_patterns_extends:
  "\<exists>new. substitutions (snd (redact_patterns re call string ps r)) = substitutions r @ new"
proof (induction ps arbitrary: r)
  case Nil
  show ?case by simp
next
  case (Cons p ps)
  obtain e r' where step: "redact_secrets call (re_findall re p string) r = (e, r')"
    by (cases "redact_secrets call (re_findall re p string) r")
  obtain n1 where n1: "substitutions r' = substitutions r @ n1"
    using redact_secrets_extends [of call "re_findall re p string" r] step by auto
  show ?case
  proof (cases e)
    case None
    obtain n2 where "substitutions (snd (redact_patterns re call string ps r'))
        = substitutions r' @ n2"
      using Cons.IH [of r'] by blast
    then show ?thesis using step None n1 by simp
  next
    case (Some x)
    then show ?thesis using step n1 by simp
  qed
qed

lemma redact_snd:
  "snd (redact re call r string) = snd (redact_patterns re call string (patterns r) r)"
  by (simp add: redact_def split: prod.splits option.splits)

lemma redact_extends:
  "\<exists>new. substitutions (snd (redact re call r string)) = substitutions r @ new"
  by (simp add: redact_snd redact_patterns_extends)

lemma redact_lines_extends:
  "\<exists>new. substitutions (snd (redact_lines re call r ls)) = substitutions r @ new"
proof (induction ls arbitrary: r)
  case Nil
  show ?case by simp
next
  case (Cons l ls)
  obtain res r' where step: "redact re call r l = (res, r')"
    by (cases "redact re call r l")
  obtain n1 where n1: "substitutions r' = substitutions r @ n1"
    using redact_extends [of re call r l] step by auto
  show ?case
  proof (cases res)
    case (Inl e)
    then show ?thesis using step n1 by simp
  next
    case (Inr out)
    obtain n2 where n2: "substitutions (snd (redact_lines re call r' ls))
        = substitutions r' @ n2"
      using Cons.IH [of r'] by blast
    then show ?thesis
      using step Inr n1 by (auto split: prod.splits sum.splits)
  qed
qed

section \<open>The shape of the table after discovery\<close>

lemma placeholders_length [simp]: "length (placeholders base c n) = n"
  by (simp add: placeholders_def)

lemma placeholders_add:
  "placeholders base c (m + n) = placeholders base c m @ placeholders base (c + m) n"
proof -
  have "[c ..< c + (m + n)] = [c ..< c + m] @ [c + m ..< c + m + n]"
    using upt_add_eq_append [of c "c + m" n] by (simp add: add.assoc)
  then show ?thesis
    by (simp add: placeholders_def)
qed

lemma grows_refl: "grows r r"
  unfolding grows_def by (rule exI [of _ "[]"]) simp

lemma grows_assign: "\<not> dict_contains (substitutions r) s \<Longrightarrow> grows r (assign r s)"
  unfolding grows_def
  by (rule exI [of _ "[s]"]) (simp add: assign_def dict_setitem_new placeholders_def)

lemma dict_contains_append:
  "dict_contains (d @ e) k \<longleftrightarrow> dict_contains d k \<or> dict_contains e k"
  by (auto simp: dict_contains_fst)

lemma dict_contains_zip:
  "length ks = length vs \<Longrightarrow> dict_contains (zip ks vs) k \<longleftrightarrow> k \<in> set ks"
  using map_fst_zip [of ks vs] by (metis dict_contains_fst set_map)

lemma grows_trans:
  assumes "grows r r'" and "grows r' r''"
  shows "grows r r''"
proof -
  obtain n1 where n1: "distinct n1" "\<forall>s \<in> set n1. \<not> dict_contains (substitutions r) s"
    and r': "r' = r \<lparr> substitutions :=
                    substitutions r @ zip n1 (placeholders (substitution_string r) (counter r) (length n1)),
                  counter := counter r + length n1 \<rparr>"
    using assms(1) unfolding grows_def by blast
  obtain n2 where n2: "distinct n2" "\<forall>s \<in> set n2. \<not> dict_contains (substitutions r') s"
    and r'': "r'' = r' \<lparr> substitutions :=
                    substitutions r' @ zip n2 (placeholders (substitution_string r') (counter r') (length n2)),
                  counter := counter r' + length n2 \<rparr>"
    using assms(2) unfolding grows_def by blast
  have disj: "\<forall>s \<in> set n2. \<not> dict_contains (substitutions r) s \<and> s \<notin> set n1"
    using n2(2) by (simp add: r' dict_contains_append dict_contains_zip)
  have a: "distinct (n1 @ n2)"
    using n1(1) n2(1) disj by auto
  have b: "\<forall>s \<in> set (n1 @ n2). \<not> dict_contains (substitutions r) s"
    using n1(2) disj by auto
  have c: "r'' = r \<lparr> substitutions :=
        substitutions r @ zip (n1 @ n2)
          (placeholders (substitution_string r) (counter r) (length (n1 @ n2))),
        counter := counter r + length (n1 @ n2) \<rparr>"
    by (simp add: r'' r' placeholders_add zip_append)
  show ?thesis
    unfolding grows_def
    by (rule exI [of _ "n1 @ n2"]) (use a b c in blast)
qed

lemma redact_secrets_grows: "grows r (snd (redact_secrets call cs r))"
proof (induction cs arbitrary: r)
  case Nil
  show ?case by (simp add: grows_refl)
next
  case (Cons c cs)
  show ?case
  proof (cases "dict_contains (substitutions r) c")
    case True
    then show ?thesis using Cons.IH [of r] by simp
  next
    case absent: False
    show ?thesis
    proof (cases "validate call r c")
      case (Inl e)
      then show ?thesis using absent by (simp add: grows_refl)
    next
      case (Inr ok)
      show ?thesis
      proof (cases ok)
        case True
        have "grows r (assign r c)"
          using absent by (rule grows_assign)
        then have "grows r (snd (redact_secrets call cs (assign r c)))"
          using Cons.IH [of "assign r c"] grows_trans by blast
        then show ?thesis
          using absent Inr True by simp
      next
        case False
        then show ?thesis using absent Inr Cons.IH [of r] by simp
      qed
    qed
  qed
qed

lemma redact_secrets_append:
  "redact_secrets call (xs @ ys) r =
     (case redact_secrets call xs r of
        (Some e, r') \<Rightarrow> (Some e, r')
      | (None, r') \<Rightarrow> redact_secrets call ys r')"
proof (induction xs arbitrary: r)
  case Nil
  show ?case by simp
next
  case (Cons c cs)
  show ?case
  proof (cases "dict_contains (substitutions r) c")
    case True
    then show ?thesis using Cons.IH [of r] by simp
  next
    case absent: False
    show ?thesis
    proof (cases "validate call r c")
      case (Inl e)
      then show ?thesis using absent by simp
    next
      case (Inr ok)
      then show ?thesis
        using absent Cons.IH [of r] Cons.IH [of "assign r c"] by (cases ok) simp_all
    qed
  qed
qed

lemma redact_patterns_flat:
  "redact_patterns re call string ps r =
     redact_secrets call (concat (map (\<lambda>p. re_findall re p string) ps)) r"
proof (induction ps arbitrary: r)
  case Nil
  show ?case by simp
next
  case (Cons p ps)
  obtain e r' where step: "redact_secrets call (re_findall re p string) r = (e, r')"
    by (cases "redact_secrets call (re_findall re p string) r")
  show ?case
    using step Cons.IH [of r'] by (cases e) (simp_all add: redact_secrets_append)
qed

section \<open>Stability of the substitution table\<close>

text \<open>
  Claim C1.  Once a cleartext is a key of the substitution table, whether it was given
  at construction or discovered, it keeps its placeholder.  Meeting it again as a
  candidate is the same as skipping it, for every behaviour of the validator (also one
  that could not be run at all), so it is neither assigned again nor validated again.
  A call of \<open>redact\<close>, and a run of calls on any lines, only appends to the table, also
  when the call ends with an exception: no entry is removed or changed, and the
  cleartext still maps to the same placeholder afterwards.
\<close>

theorem substitution_table_stable:
  assumes "map_of (substitutions r) secret = Some placeholder"
  shows "(\<forall>call rest. redact_secrets call (secret # rest) r = redact_secrets call rest r)
    \<and> (\<exists>new. substitutions (snd (redact re call r string)) = substitutions r @ new)
    \<and> map_of (substitutions (snd (redact re call r string))) secret = Some placeholder
    \<and> (\<exists>new. substitutions (snd (redact_lines re call r lines)) = substitutions r @ new)
    \<and> map_of (substitutions (snd (redact_lines re call r lines))) secret = Some placeholder"
proof -
  have "dict_contains (substitutions r) secret"
    using assms by (simp add: dict_contains_def)
  then have skip: "\<forall>call rest. redact_secrets call (secret # rest) r = redact_secrets call rest r"
    by simp
  obtain n1 where n1: "substitutions (snd (redact re call r string)) = substitutions r @ n1"
    using redact_extends by blast
  obtain n2 where n2: "substitutions (snd (redact_lines re call r lines)) = substitutions r @ n2"
    using redact_lines_extends by blast
  show ?thesis
    using skip n1 n2 assms by (simp add: map_of_append_Some del: redact_secrets.simps)
qed

theorem substitution_table_stable_witness:
  "map_of (substitutions known_ip_redacter) ''10.10.255.1'' = Some ''redact0''
   \<and> validator known_ip_redacter = Some ''ipv4_address''
   \<and> redact py_re no_programs known_ip_redacter ''10.10.255.1''
       = (Inr ''redact0'', known_ip_redacter)
   \<and> redact py_re no_programs known_ip_redacter ''10.10.255.2''
       = (Inl OSError, known_ip_redacter)
   \<and> map_of (substitutions (snd (redact py_re no_programs known_ip_redacter ''10.10.255.1'')))
        ''10.10.255.1'' = Some ''redact0''
   \<and> map_of (substitutions (snd (redact_lines py_re one_validator known_ip_redacter
        [''10.10.255.1'', ''10.10.299.1'', ''at 10.10.255.1'']))) ''10.10.255.1''
       = Some ''redact0''"
proof -
  have h: "map_of (substitutions known_ip_redacter) ''10.10.255.1'' = Some ''redact0''"
    by (simp add: known_ip_redacter_def)
  have v: "validator known_ip_redacter = Some ''ipv4_address''"
    by (simp add: known_ip_redacter_def ip_redacter_def)
  have e: "redact py_re no_programs known_ip_redacter ''10.10.255.1''
       = (Inr ''redact0'', known_ip_redacter)"
    by code_simp
  have f: "redact py_re no_programs known_ip_redacter ''10.10.255.2''
       = (Inl OSError, known_ip_redacter)"
    by code_simp
  note t = substitution_table_stable [OF h]
  have a: "map_of (substitutions (snd (redact py_re no_programs known_ip_redacter
        ''10.10.255.1''))) ''10.10.255.1'' = Some ''redact0''"
    using t [of py_re no_programs "''10.10.255.1''" "[]"]
    by (rule conjunct2 [THEN conjunct2, THEN conjunct1])
  have b: "map_of (substitutions (snd (redact_lines py_re one_validator known_ip_redacter
        [''10.10.255.1'', ''10.10.299.1'', ''at 10.10.255.1'']))) ''10.10.255.1''
       = Some ''redact0''"
    using t [of py_re one_validator "''10.10.255.1''"
        "[''10.10.255.1'', ''10.10.299.1'', ''at 10.10.255.1'']"]
    by (rule conjunct2 [THEN conjunct2, THEN conjunct2, THEN conjunct2])
  show ?thesis
    using h v e f a b by (intro conjI)
qed

section \<open>Growth of the table over a run\<close>

lemma grows_fields:
  assumes "grows r r'"
  shows "substitution_string r' = substitution_string r"
    and "patterns r' = patterns r"
    and "validator r' = validator r"
    and "counter r \<le> counter r'"
  using assms unfolding grows_def by auto

lemma redact_patterns_grows: "grows r (snd (redact_patterns re call string ps r))"
  by (simp add: redact_patterns_flat redact_secrets_grows)

lemma redact_grows: "grows r (snd (redact re call r string))"
  by (simp add: redact_snd redact_patterns_grows)

lemma redact_lines_grows: "grows r (snd (redact_lines re call r ls))"
proof (induction ls arbitrary: r)
  case Nil
  show ?case by (simp add: grows_refl)
next
  case (Cons l ls)
  obtain res r' where step: "redact re call r l = (res, r')"
    by (cases "redact re call r l")
  have g1: "grows r r'"
    using redact_grows [of r re call l] step by simp
  show ?case
  proof (cases res)
    case (Inl e)
    then show ?thesis using step g1 by simp
  next
    case (Inr out)
    obtain res2 r2 where rest: "redact_lines re call r' ls = (res2, r2)"
      by (cases "redact_lines re call r' ls")
    have "grows r' r2"
      using Cons.IH [of r'] rest by simp
    then have "grows r r2"
      using g1 grows_trans by blast
    then show ?thesis
      using step Inr rest by (cases res2) simp_all
  qed
qed

lemma decimal_nonempty: "decimal n \<noteq> []"
  by (subst decimal.simps) simp

lemma digit_inj: "a < 10 \<Longrightarrow> b < 10 \<Longrightarrow> digit a = digit b \<Longrightarrow> a = b"
proof -
  assume "a < 10" "b < 10" "digit a = digit b"
  moreover have "distinct ''0123456789''"
    by simp
  ultimately show ?thesis
    unfolding digit_def by (simp add: nth_eq_iff_index_eq)
qed

lemma decimal_inj: "decimal m = decimal n \<Longrightarrow> m = n"
proof (induction m arbitrary: n rule: decimal.induct)
  case (1 m)
  show ?case
  proof (cases "m < 10")
    case small: True
    show ?thesis
    proof (cases "n < 10")
      case True
      then show ?thesis
        using "1.prems" small digit_inj by (simp add: decimal.simps [of m] decimal.simps [of n])
    next
      case False
      then show ?thesis
        using "1.prems" small decimal_nonempty [of "n div 10"]
        by (simp add: decimal.simps [of m] decimal.simps [of n])
    qed
  next
    case big: False
    show ?thesis
    proof (cases "n < 10")
      case True
      then show ?thesis
        using "1.prems" big decimal_nonempty [of "m div 10"]
        by (simp add: decimal.simps [of m] decimal.simps [of n])
    next
      case False
      have eq: "decimal (m div 10) = decimal (n div 10)" "digit (m mod 10) = digit (n mod 10)"
        using "1.prems" big False by (simp_all add: decimal.simps [of m] decimal.simps [of n])
      have "m div 10 = n div 10"
        using "1.IH" [OF big eq(1)] .
      moreover have "m mod 10 = n mod 10"
        using eq(2) digit_inj [of "m mod 10" "n mod 10"] by simp
      ultimately show ?thesis
        by (metis div_mult_mod_eq)
    qed
  qed
qed

lemma placeholders_distinct: "distinct (placeholders base c n)"
proof -
  have "inj_on (\<lambda>i. base @ decimal i) (set [c ..< c + n])"
    by (rule inj_onI) (simp add: decimal_inj)
  then show ?thesis
    unfolding placeholders_def by (simp add: distinct_map)
qed

lemma Redacter_init_fields:
  assumes "Redacter_init re base pats subs v = Inr r0"
  shows "counter r0 = 0" and "substitution_string r0 = base" and "validator r0 = v"
    and "substitutions r0 = (if falsy subs then [] else the subs)"
  using assms
  by (auto simp: Redacter_init_def split: if_splits sum.splits)

lemma redact_secrets_accept:
  assumes "\<not> dict_contains (substitutions r) secret" and "validate call r secret = Inr True"
  shows "redact_secrets call (secret # rest) r =
     redact_secrets call rest
       (r \<lparr> counter := counter r + 1,
            substitutions :=
              substitutions r @ [(secret, substitution_string r @ decimal (counter r))] \<rparr>)"
  using assms by (simp add: assign_def dict_setitem_new)

section \<open>Placeholder assignment\<close>

text \<open>
  Claim C3.  A Redacter starts with the counter at 0.  A candidate that is not yet in
  the table and that the validator accepts is recorded with the placeholder made of the
  base string and the decimal digits of the counter, and the counter goes up by one.
  The one counter of the Redacter serves all patterns and all lines: after a run of
  \<open>redact\<close> calls on any lines, the table is the table given at construction followed
  by the discovered secrets, the i-th of them mapped to base + i, and the counter is
  their number.  So no counter value is used twice, the discovered secrets are all
  different, and so are their placeholders.
\<close>

theorem placeholder_assignment:
  assumes "Redacter_init re base pats subs v = Inr r0"
  shows "counter r0 = 0
    \<and> (\<forall>call r secret rest.
          \<not> dict_contains (substitutions r) secret \<and> validate call r secret = Inr True \<longrightarrow>
          redact_secrets call (secret # rest) (r :: 'p redacter) =
            redact_secrets call rest
              (r \<lparr> counter := counter r + 1,
                   substitutions :=
                     substitutions r @ [(secret, substitution_string r @ decimal (counter r))] \<rparr>))
    \<and> (\<exists>news. distinct news
          \<and> length news = counter (snd (redact_lines re call r0 lines))
          \<and> substitutions (snd (redact_lines re call r0 lines))
              = substitutions r0 @ zip news (map (\<lambda>i. base @ decimal i) [0 ..< length news])
          \<and> distinct (map (\<lambda>i. base @ decimal i) [0 ..< length news]))"
proof -
  have zero: "counter r0 = 0" and base: "substitution_string r0 = base"
    using Redacter_init_fields [OF assms] by simp_all
  obtain news where news: "distinct news"
    and r': "snd (redact_lines re call r0 lines)
       = r0 \<lparr> substitutions :=
                 substitutions r0
                 @ zip news (placeholders (substitution_string r0) (counter r0) (length news)),
               counter := counter r0 + length news \<rparr>"
    using redact_lines_grows [of r0 re call lines] unfolding grows_def by blast
  have "length news = counter (snd (redact_lines re call r0 lines))"
    by (simp add: r' zero)
  moreover have "substitutions (snd (redact_lines re call r0 lines))
      = substitutions r0 @ zip news (map (\<lambda>i. base @ decimal i) [0 ..< length news])"
    by (simp add: r' zero base placeholders_def)
  moreover have "distinct (map (\<lambda>i. base @ decimal i) [0 ..< length news])"
    using placeholders_distinct [of base 0 "length news"] by (simp add: placeholders_def)
  ultimately have runs: "\<exists>news. distinct news
          \<and> length news = counter (snd (redact_lines re call r0 lines))
          \<and> substitutions (snd (redact_lines re call r0 lines))
              = substitutions r0 @ zip news (map (\<lambda>i. base @ decimal i) [0 ..< length news])
          \<and> distinct (map (\<lambda>i. base @ decimal i) [0 ..< length news])"
    using news by (intro exI [of _ news]) simp
  show ?thesis
  proof (intro conjI allI impI)
    show "counter r0 = 0" by (rule zero)
  next
    fix call' :: subprocess and r :: "'p redacter" and secret rest
    assume "\<not> dict_contains (substitutions r) secret \<and> validate call' r secret = Inr True"
    then show "redact_secrets call' (secret # rest) r =
            redact_secrets call' rest
              (r \<lparr> counter := counter r + 1,
                   substitutions :=
                     substitutions r @ [(secret, substitution_string r @ decimal (counter r))] \<rparr>)"
      using redact_secrets_accept [of r secret call' rest] by blast
  next
    show "\<exists>news. distinct news
          \<and> length news = counter (snd (redact_lines re call r0 lines))
          \<and> substitutions (snd (redact_lines re call r0 lines))
              = substitutions r0 @ zip news (map (\<lambda>i. base @ decimal i) [0 ..< length news])
          \<and> distinct (map (\<lambda>i. base @ decimal i) [0 ..< length news])"
      by (rule runs)
  qed
qed

theorem placeholder_assignment_witness:
  "Redacter_init py_re ''redact'' (Some [a_pattern]) None None = Inr substring_redacter
   \<and> counter substring_redacter = 0
   \<and> snd (redact_lines py_re no_programs substring_redacter [''A'', ''AA'', ''AB'', ''XAB''])
     = substring_redacter
         \<lparr> substitutions := [(''A'', ''redact0''), (''AA'', ''redact1''), (''AB'', ''redact2'')],
           counter := 3 \<rparr>
   \<and> (\<exists>news. distinct news
        \<and> length news = counter (snd (redact_lines py_re no_programs substring_redacter
            [''A'', ''AA'', ''AB'', ''XAB'']))
        \<and> substitutions (snd (redact_lines py_re no_programs substring_redacter
            [''A'', ''AA'', ''AB'', ''XAB'']))
          = substitutions substring_redacter
            @ zip news (map (\<lambda>i. ''redact'' @ decimal i) [0 ..< length news])
        \<and> distinct (map (\<lambda>i. ''redact'' @ decimal i) [0 ..< length news]))"
proof -
  have i: "Redacter_init py_re ''redact'' (Some [a_pattern]) None None = Inr substring_redacter"
    by code_simp
  have e: "snd (redact_lines py_re no_programs substring_redacter [''A'', ''AA'', ''AB'', ''XAB''])
     = substring_redacter
         \<lparr> substitutions := [(''A'', ''redact0''), (''AA'', ''redact1''), (''AB'', ''redact2'')],
           counter := 3 \<rparr>"
    by code_simp
  note t = placeholder_assignment [OF i, of no_programs "[''A'', ''AA'', ''AB'', ''XAB'']"]
  have c: "counter substring_redacter = 0"
    using t by (rule conjunct1)
  have n: "\<exists>news. distinct news
        \<and> length news = counter (snd (redact_lines py_re no_programs substring_redacter
            [''A'', ''AA'', ''AB'', ''XAB'']))
        \<and> substitutions (snd (redact_lines py_re no_programs substring_redacter
            [''A'', ''AA'', ''AB'', ''XAB'']))
          = substitutions substring_redacter
            @ zip news (map (\<lambda>i. ''redact'' @ decimal i) [0 ..< length news])
        \<and> distinct (map (\<lambda>i. ''redact'' @ decimal i) [0 ..< length news])"
    using t by (rule conjunct2 [THEN conjunct2])
  show ?thesis
    using i c e n by (intro conjI)
qed

section \<open>The replacement phase\<close>

lemma grows_distinct_keys:
  assumes "grows r r'" and "distinct (map fst (substitutions r))"
  shows "distinct (map fst (substitutions r'))"
proof -
  obtain news where news: "distinct news" "\<forall>s \<in> set news. \<not> dict_contains (substitutions r) s"
    and r': "r' = r \<lparr> substitutions :=
                    substitutions r
                    @ zip news (placeholders (substitution_string r) (counter r) (length news)),
                  counter := counter r + length news \<rparr>"
    using assms(1) unfolding grows_def by blast
  have "map fst (substitutions r') = map fst (substitutions r) @ news"
    by (simp add: r')
  moreover have "set (map fst (substitutions r)) \<inter> set news = {}"
    using news(2) by (auto simp: dict_contains_fst)
  ultimately show ?thesis
    using assms(2) news(1) by simp
qed

lemma redact_replace_fold:
  assumes "distinct (map fst d)" and "set es \<subseteq> set d"
  shows "redact_replace d es s =
     Inr (foldl (\<lambda>acc (secret, substitution). str_replace secret substitution acc) s es)"
  using assms(2)
proof (induction es arbitrary: s)
  case Nil
  show ?case by simp
next
  case (Cons e es)
  obtain k v where e: "e = (k, v)"
    by (cases e)
  have "map_of d k = Some v"
    using Cons.prems assms(1) e by simp
  then show ?case
    using Cons e by (simp add: dict_getitem_def)
qed

lemma sorted_items_set: "set (sorted_items d) = set d"
  by (simp add: sorted_items_def)

lemma sorted_items_mset: "mset (sorted_items d) = mset d"
  by (simp add: sorted_items_def)

lemma sorted_items_descending:
  "sorted_wrt (\<lambda>a b. length (fst a) \<ge> length (fst b)) (sorted_items d)"
proof -
  have "sorted (map (\<lambda>i. - int (length (fst i))) (sorted_items d))"
    unfolding sorted_items_def by (rule sorted_sort_key)
  then show ?thesis
    by (simp add: sorted_map)
qed

lemma sorted_items_stable:
  "filter (\<lambda>i. length (fst i) = n) (sorted_items d) = filter (\<lambda>i. length (fst i) = n) d"
proof -
  have "filter (\<lambda>i. - int (length (fst i)) = - int n) (sorted_items d)
      = filter (\<lambda>i. - int (length (fst i)) = - int n) d"
    unfolding sorted_items_def by (rule sort_key_stable)
  then show ?thesis by simp
qed

lemma proper_sublist_shorter: "sublist xs ys \<Longrightarrow> xs \<noteq> ys \<Longrightarrow> length xs < length ys"
  by (auto simp: sublist_def)

lemma longer_first:
  assumes sorted: "sorted_wrt (\<lambda>a b. length (fst a) \<ge> length (fst b)) es"
    and short: "(k1, v1) \<in> set es" and long: "(k2, v2) \<in> set es"
    and less: "length k1 < length k2"
  shows "\<exists>xs ys zs. es = xs @ (k2, v2) # ys @ (k1, v1) # zs"
proof -
  obtain as bs where es: "es = as @ (k1, v1) # bs"
    using short by (meson split_list)
  have "(k2, v2) \<notin> set bs"
  proof
    assume "(k2, v2) \<in> set bs"
    then have "length (fst (k1, v1)) \<ge> length (fst (k2, v2))"
      using sorted unfolding es by (auto simp: sorted_wrt_append)
    then show False using less by simp
  qed
  moreover have "(k2, v2) \<noteq> (k1, v1)"
    using less by auto
  ultimately have "(k2, v2) \<in> set as"
    using long unfolding es by auto
  then obtain xs ys where "as = xs @ (k2, v2) # ys"
    by (meson split_list)
  then show ?thesis
    unfolding es by auto
qed

lemma redact_result:
  "redact re call r string = (res, r') \<Longrightarrow>
     r' = snd (redact_patterns re call string (patterns r) r)"
  using redact_snd [of re call r string] by simp

lemma redact_output:
  assumes "distinct (map fst (substitutions r))" and "redact re call r string = (Inr out, r')"
  shows "out = foldl (\<lambda>acc (secret, substitution). str_replace secret substitution acc) string
                 (sorted_items (substitutions r'))"
proof -
  obtain e r1 where disc: "redact_patterns re call string (patterns r) r = (e, r1)"
    by (cases "redact_patterns re call string (patterns r) r")
  have e: "e = None"
    using assms(2) disc by (cases e) (simp_all add: redact_def)
  have r1: "r1 = r'"
    using assms(2) disc e by (simp add: redact_def)
  have "grows r r'"
    using redact_patterns_grows [of r re call string "patterns r"] disc r1 by simp
  then have "distinct (map fst (substitutions r'))"
    using assms(1) grows_distinct_keys by blast
  then have "redact_replace (substitutions r') (sorted_items (substitutions r')) string
      = Inr (foldl (\<lambda>acc (secret, substitution). str_replace secret substitution acc) string
                 (sorted_items (substitutions r')))"
    by (rule redact_replace_fold) (simp add: sorted_items_set)
  then show ?thesis
    using assms(2) disc e r1 by (simp add: redact_def)
qed

text \<open>
  Claim C2.  When discovery has ended without an exception, the line returned by
  \<open>redact\<close> is the input line after \<open>replace\<close> has been applied, one entry after the
  other, for every entry of the table as it is after discovery.  Each entry is applied
  exactly once; the entries are taken by descending length of the cleartext; entries
  whose cleartexts have the same length keep the order of the table.  So when one
  mapped secret is a proper substring of another, the longer one is replaced first.
  With the table \<open>{"secretA": "x"}\<close> the line \<open>secretAsecretA\<close> becomes \<open>xx\<close>, and
  with \<open>{"secretA": "x", "secretB": "y"}\<close> the line \<open>secretAsecretB\<close> becomes \<open>xy\<close>.
  The table is a dict: it has one entry per key.
\<close>

theorem replacement_phase:
  assumes "distinct (map fst (substitutions r))" and "redact re call r string = (Inr out, r')"
  shows "out = foldl (\<lambda>acc (secret, substitution). str_replace secret substitution acc) string
                 (sorted_items (substitutions r'))
    \<and> mset (sorted_items (substitutions r')) = mset (substitutions r')
    \<and> sorted_wrt (\<lambda>a b. length (fst a) \<ge> length (fst b)) (sorted_items (substitutions r'))
    \<and> (\<forall>n. filter (\<lambda>i. length (fst i) = n) (sorted_items (substitutions r'))
            = filter (\<lambda>i. length (fst i) = n) (substitutions r'))
    \<and> (\<forall>k1 v1 k2 v2.
          (k1, v1) \<in> set (substitutions r') \<and> (k2, v2) \<in> set (substitutions r')
          \<and> sublist k1 k2 \<and> k1 \<noteq> k2 \<longrightarrow>
          (\<exists>xs ys zs. sorted_items (substitutions r') = xs @ (k2, v2) # ys @ (k1, v1) # zs))
    \<and> (case Redacter_init re ''redact'' None (Some [(''secretA'', ''x'')]) None of
          Inl e \<Rightarrow> False
        | Inr r0 \<Rightarrow> fst (redact re call r0 ''secretAsecretA'') = Inr ''xx'')
    \<and> (case Redacter_init re ''redact'' None
               (Some [(''secretA'', ''x''), (''secretB'', ''y'')]) None of
          Inl e \<Rightarrow> False
        | Inr r0 \<Rightarrow> fst (redact re call r0 ''secretAsecretB'') = Inr ''xy'')"
proof (intro conjI allI impI)
  show "out = foldl (\<lambda>acc (secret, substitution). str_replace secret substitution acc) string
                 (sorted_items (substitutions r'))"
    using assms by (rule redact_output)
next
  show "mset (sorted_items (substitutions r')) = mset (substitutions r')"
    by (rule sorted_items_mset)
next
  show "sorted_wrt (\<lambda>a b. length (fst a) \<ge> length (fst b)) (sorted_items (substitutions r'))"
    by (rule sorted_items_descending)
next
  fix n
  show "filter (\<lambda>i. length (fst i) = n) (sorted_items (substitutions r'))
            = filter (\<lambda>i. length (fst i) = n) (substitutions r')"
    by (rule sorted_items_stable)
next
  fix k1 v1 k2 v2
  assume h: "(k1, v1) \<in> set (substitutions r') \<and> (k2, v2) \<in> set (substitutions r')
          \<and> sublist k1 k2 \<and> k1 \<noteq> k2"
  then have "length k1 < length k2"
    using proper_sublist_shorter by blast
  then show "\<exists>xs ys zs. sorted_items (substitutions r') = xs @ (k2, v2) # ys @ (k1, v1) # zs"
    using h longer_first [OF sorted_items_descending, of k1 v1 "substitutions r'" k2 v2]
    by (simp add: sorted_items_set)
next
  show "case Redacter_init re ''redact'' None (Some [(''secretA'', ''x'')]) None of
          Inl e \<Rightarrow> False
        | Inr r0 \<Rightarrow> fst (redact re call r0 ''secretAsecretA'') = Inr ''xx''"
    by (simp add: Redacter_init_def falsy_def redact_def sorted_items_def dict_getitem_def
        str_replace_def)
next
  show "case Redacter_init re ''redact'' None
               (Some [(''secretA'', ''x''), (''secretB'', ''y'')]) None of
          Inl e \<Rightarrow> False
        | Inr r0 \<Rightarrow> fst (redact re call r0 ''secretAsecretB'') = Inr ''xy''"
    by (simp add: Redacter_init_def falsy_def redact_def sorted_items_def dict_getitem_def
        str_replace_def)
qed

theorem replacement_phase_witness:
  "distinct (map fst (substitutions seeded_redacter))
   \<and> redact py_re no_programs seeded_redacter ''secret: te test''
      = (Inr ''secret: redact0 x'',
         seeded_redacter \<lparr> substitutions := [(''test'', ''x''), (''te'', ''redact0'')],
                           counter := 1 \<rparr>)
   \<and> sorted_items [(''test'', ''x''), (''te'', ''redact0'')]
      = [(''test'', ''x''), (''te'', ''redact0'')]
   \<and> ''secret: redact0 x''
      = foldl (\<lambda>acc (secret, substitution). str_replace secret substitution acc)
          ''secret: te test''
          (sorted_items (substitutions
             (seeded_redacter \<lparr> substitutions := [(''test'', ''x''), (''te'', ''redact0'')],
                                counter := 1 \<rparr>)))"
proof -
  have d: "distinct (map fst (substitutions seeded_redacter))"
    by (simp add: seeded_redacter_def)
  have e: "redact py_re no_programs seeded_redacter ''secret: te test''
      = (Inr ''secret: redact0 x'',
         seeded_redacter \<lparr> substitutions := [(''test'', ''x''), (''te'', ''redact0'')],
                           counter := 1 \<rparr>)"
    by code_simp
  have s: "sorted_items [(''test'', ''x''), (''te'', ''redact0'')]
      = [(''test'', ''x''), (''te'', ''redact0'')]"
    by (simp add: sorted_items_def)
  show ?thesis
    using d e s replacement_phase [OF d e, THEN conjunct1] by (intro conjI)
qed

section \<open>Lines without a match\<close>

lemma redact_patterns_no_match:
  assumes "\<forall>p \<in> set ps. re_findall re p string = []"
  shows "redact_patterns re call string ps r = (None, r)"
proof -
  have c: "concat (map (\<lambda>p. re_findall re p string) ps) = []"
    using assms by simp
  show ?thesis
    unfolding redact_patterns_flat c by simp
qed

lemma redact_replace_absent:
  assumes "set es \<subseteq> set d" and "\<forall>k \<in> fst ` set es. \<not> sublist k s"
  shows "redact_replace d es s = Inr s"
  using assms
proof (induction es)
  case Nil
  show ?case by simp
next
  case (Cons e es)
  obtain k v where e: "e = (k, v)"
    by (cases e)
  have "k \<in> fst ` set d"
    using Cons.prems(1) e by force
  then obtain v' where "map_of d k = Some v'"
    by (metis map_of_eq_None_iff not_Some_eq)
  moreover have "str_replace k v' s = s"
    using Cons.prems(2) e by (simp add: str_replace_absent)
  ultimately show ?case
    using Cons e by (simp add: dict_getitem_def)
qed

text \<open>
  Claim C9.  When no pattern of the Redacter finds anything in the line, \<open>redact\<close>
  leaves the Redacter as it is: the table and the counter are unchanged.  If moreover
  no key of the table occurs in the line, \<open>redact\<close> returns the line as it is.
\<close>

theorem redact_without_match:
  assumes "\<forall>p \<in> set (patterns r). re_findall re p string = []"
  shows "snd (redact re call r string) = r
    \<and> ((\<forall>k \<in> fst ` set (substitutions r). \<not> sublist k string) \<longrightarrow>
         fst (redact re call r string) = Inr string)"
proof -
  have disc: "redact_patterns re call string (patterns r) r = (None, r)"
    using assms by (rule redact_patterns_no_match)
  have "snd (redact re call r string) = r"
    using disc by (simp add: redact_def)
  moreover have "fst (redact re call r string) = Inr string"
    if "\<forall>k \<in> fst ` set (substitutions r). \<not> sublist k string"
  proof -
    have "redact_replace (substitutions r) (sorted_items (substitutions r)) string = Inr string"
      using that by (intro redact_replace_absent) (simp_all add: sorted_items_set)
    then show ?thesis
      using disc by (simp add: redact_def)
  qed
  ultimately show ?thesis by blast
qed

theorem redact_without_match_witness:
  "map (\<lambda>p. re_findall py_re p ''nothing to see'') (patterns seeded_redacter) = [[]]
   \<and> map (\<lambda>k. sublist k ''nothing to see'') (map fst (substitutions seeded_redacter)) = [False]
   \<and> snd (redact py_re no_programs seeded_redacter ''nothing to see'') = seeded_redacter
   \<and> fst (redact py_re no_programs seeded_redacter ''nothing to see'') = Inr ''nothing to see''"
proof -
  have h: "\<forall>p \<in> set (patterns seeded_redacter). re_findall py_re p ''nothing to see'' = []"
    by code_simp
  have k: "\<forall>k \<in> fst ` set (substitutions seeded_redacter). \<not> sublist k ''nothing to see''"
    by code_simp
  have h': "map (\<lambda>p. re_findall py_re p ''nothing to see'') (patterns seeded_redacter) = [[]]"
    by code_simp
  have k': "map (\<lambda>k. sublist k ''nothing to see'') (map fst (substitutions seeded_redacter))
      = [False]"
    by code_simp
  show ?thesis
    using h' k' k redact_without_match [OF h, of no_programs] by blast
qed

section \<open>The order of discovery\<close>

lemma remdups_snoc: "remdups (ys @ [x]) = filter (\<lambda>y. y \<noteq> x) (remdups ys) @ [x]"
  by (induction ys) auto

lemma firsts_Nil: "firsts [] = []"
  by (simp add: firsts_def)

lemma firsts_filter: "firsts (filter P xs) = filter P (firsts xs)"
  by (simp add: firsts_def rev_filter remdups_filter)

lemma firsts_Cons: "firsts (x # xs) = x # firsts (filter (\<lambda>y. y \<noteq> x) xs)"
  by (simp add: firsts_filter) (simp add: firsts_def remdups_snoc rev_filter)

lemma placeholders_Suc:
  "placeholders base c (Suc n) = (base @ decimal c) # placeholders base (Suc c) n"
proof -
  have "[c ..< c + Suc n] = c # [Suc c ..< Suc c + n]"
    using upt_conv_Cons [of c "c + Suc n"] by simp
  then show ?thesis
    by (simp add: placeholders_def)
qed

lemma validate_assign: "validate call (assign r c) s = validate call r s"
  by (simp add: validate_def assign_fields)

lemma dict_contains_assign:
  "\<not> dict_contains (substitutions r) c \<Longrightarrow>
     dict_contains (substitutions (assign r c)) s \<longleftrightarrow> dict_contains (substitutions r) s \<or> s = c"
  by (auto simp: assign_substitutions dict_contains_fst)

lemma redact_secrets_discovers:
  assumes "redact_secrets call cs r = (None, r')"
  shows "r' = r \<lparr> substitutions :=
        substitutions r
        @ zip (firsts (filter (\<lambda>s. \<not> dict_contains (substitutions r) s
                                    \<and> validate call r s = Inr True) cs))
              (placeholders (substitution_string r) (counter r)
                 (length (firsts (filter (\<lambda>s. \<not> dict_contains (substitutions r) s
                                    \<and> validate call r s = Inr True) cs)))),
      counter := counter r
        + length (firsts (filter (\<lambda>s. \<not> dict_contains (substitutions r) s
                                    \<and> validate call r s = Inr True) cs)) \<rparr>"
  using assms
proof (induction cs arbitrary: r)
  case Nil
  then show ?case by (simp add: firsts_Nil placeholders_def)
next
  case (Cons c cs)
  show ?case
  proof (cases "dict_contains (substitutions r) c")
    case True
    then show ?thesis using Cons.IH [of r] Cons.prems by simp
  next
    case absent: False
    show ?thesis
    proof (cases "validate call r c")
      case (Inl e)
      then show ?thesis using absent Cons.prems by simp
    next
      case (Inr ok)
      show ?thesis
      proof (cases ok)
        case False
        then show ?thesis using absent Inr Cons.IH [of r] Cons.prems by simp
      next
        case True
        define P where "P = (\<lambda>s. \<not> dict_contains (substitutions r) s \<and> validate call r s = Inr True)"
        define news where "news = firsts (filter (\<lambda>s. P s \<and> s \<noteq> c) cs)"
        have run: "redact_secrets call cs (assign r c) = (None, r')"
          using absent Inr True Cons.prems by simp
        have P1: "(\<lambda>s. \<not> dict_contains (substitutions (assign r c)) s
                \<and> validate call (assign r c) s = Inr True) = (\<lambda>s. P s \<and> s \<noteq> c)"
          using absent by (auto simp: P_def validate_assign dict_contains_assign)
        have r': "r' = (assign r c) \<lparr> substitutions :=
              substitutions (assign r c)
              @ zip news (placeholders (substitution_string r) (Suc (counter r)) (length news)),
            counter := Suc (counter r) + length news \<rparr>"
          using Cons.IH [OF run] unfolding P1 news_def by (simp add: assign_fields)
        have f: "firsts (filter P (c # cs)) = c # news"
          using absent Inr True
          by (simp add: P_def firsts_Cons news_def conj_commute)
        have "r' = r \<lparr> substitutions :=
              substitutions r
              @ zip (c # news) (placeholders (substitution_string r) (counter r) (length (c # news))),
            counter := counter r + length (c # news) \<rparr>"
          unfolding r' using absent
          by (simp add: assign_substitutions placeholders_Suc) (simp add: assign_def)
        then show ?thesis
          unfolding f [symmetric] P_def .
      qed
    qed
  qed
qed

lemma redact_discovers:
  assumes "redact re call r string = (Inr out, r')"
  shows "r' = r \<lparr> substitutions :=
        substitutions r
        @ zip (discovered re call r string)
              (placeholders (substitution_string r) (counter r)
                 (length (discovered re call r string))),
      counter := counter r + length (discovered re call r string) \<rparr>"
proof -
  obtain e r1 where disc: "redact_patterns re call string (patterns r) r = (e, r1)"
    by (cases "redact_patterns re call string (patterns r) r")
  have e: "e = None"
    using assms disc by (cases e) (simp_all add: redact_def)
  have r1: "r1 = r'"
    using assms disc e by (simp add: redact_def)
  have "redact_secrets call (candidates re r string) r = (None, r')"
    using disc e r1 by (simp add: redact_patterns_flat candidates_def)
  then show ?thesis
    unfolding discovered_def by (rule redact_secrets_discovers)
qed

text \<open>
  Claim C4, as amended.  Within one call of \<open>redact\<close> the candidates are met pattern
  after pattern, in the order in which the patterns were configured, and for one
  pattern in the order in which \<open>findall\<close> returns its matches, from left to right.
  When the call returns, the secrets it has discovered are the candidates that were
  not in the table and that the validator accepted, each at its first place in this
  order; they are appended to the table in this order, the i-th of them with the
  placeholder made of the base and the counter plus i, whichever pattern found it, and
  the counter of the Redacter goes up by their number.
\<close>

theorem discovery_order:
  assumes "redact re call r string = (Inr out, r')"
  shows "candidates re r string = concat (map (\<lambda>p. re_findall re p string) (patterns r))
    \<and> discovered re call r string
        = firsts (filter (\<lambda>s. \<not> dict_contains (substitutions r) s \<and> validate call r s = Inr True)
                    (candidates re r string))
    \<and> substitutions r'
        = substitutions r
          @ zip (discovered re call r string)
                (map (\<lambda>i. substitution_string r @ decimal i)
                     [counter r ..< counter r + length (discovered re call r string)])
    \<and> counter r' = counter r + length (discovered re call r string)"
proof -
  note d = redact_discovers [OF assms]
  have "substitutions r'
        = substitutions r
          @ zip (discovered re call r string)
                (map (\<lambda>i. substitution_string r @ decimal i)
                     [counter r ..< counter r + length (discovered re call r string)])"
    by (subst d) (simp add: placeholders_def)
  moreover have "counter r' = counter r + length (discovered re call r string)"
    by (subst d) simp
  ultimately show ?thesis
    by (simp add: candidates_def discovered_def)
qed

theorem discovery_order_witness:
  "redact py_re no_programs two_pattern_redacter ''secret: x secretA''
     = (Inr ''secret: redact1 redact0'',
        two_pattern_redacter
          \<lparr> substitutions := [(''secretA'', ''redact0''), (''x'', ''redact1'')], counter := 2 \<rparr>)
   \<and> candidates py_re two_pattern_redacter ''secret: x secretA'' = [''secretA'', ''x'']
   \<and> discovered py_re no_programs two_pattern_redacter ''secret: x secretA'' = [''secretA'', ''x'']
   \<and> counter (two_pattern_redacter
          \<lparr> substitutions := [(''secretA'', ''redact0''), (''x'', ''redact1'')], counter := 2 \<rparr>)
       = counter two_pattern_redacter
         + length (discovered py_re no_programs two_pattern_redacter ''secret: x secretA'')"
proof -
  have e: "redact py_re no_programs two_pattern_redacter ''secret: x secretA''
     = (Inr ''secret: redact1 redact0'',
        two_pattern_redacter
          \<lparr> substitutions := [(''secretA'', ''redact0''), (''x'', ''redact1'')], counter := 2 \<rparr>)"
    by code_simp
  have c: "candidates py_re two_pattern_redacter ''secret: x secretA'' = [''secretA'', ''x'']"
    by code_simp
  have d: "discovered py_re no_programs two_pattern_redacter ''secret: x secretA''
      = [''secretA'', ''x'']"
    by code_simp
  note t = discovery_order [OF e]
  have n: "counter (two_pattern_redacter
          \<lparr> substitutions := [(''secretA'', ''redact0''), (''x'', ''redact1'')], counter := 2 \<rparr>)
       = counter two_pattern_redacter
         + length (discovered py_re no_programs two_pattern_redacter ''secret: x secretA'')"
    using t by (rule conjunct2 [THEN conjunct2, THEN conjunct2])
  show ?thesis
    using e c d n by (intro conjI)
qed

text \<open>
  Claim C4 as it was stated says that the order of discovery follows the place of the
  secrets in the line.  For the patterns \<open>secretA\<close> and \<open>secret: (\S+)\<close> and the line
  \<open>secret: x secretA\<close> it does not: \<open>x\<close> stands at position 8 and \<open>secretA\<close> at
  position 10, yet \<open>secretA\<close>, found by the first pattern, receives \<open>redact0\<close> and \<open>x\<close>
  receives \<open>redact1\<close>.
\<close>

theorem discovery_order_counterexample:
  "Redacter_init py_re ''redact'' (Some [''secretA'', secret_colon]) None None
     = Inr two_pattern_redacter
   \<and> redact py_re no_programs two_pattern_redacter ''secret: x secretA''
     = (Inr ''secret: redact1 redact0'',
        two_pattern_redacter
          \<lparr> substitutions := [(''secretA'', ''redact0''), (''x'', ''redact1'')], counter := 2 \<rparr>)
   \<and> str_find ''x'' ''secret: x secretA'' = 8
   \<and> str_find ''secretA'' ''secret: x secretA'' = 10
   \<and> \<not> sorted (map (\<lambda>secret. str_find secret ''secret: x secretA'') [''secretA'', ''x''])"
  by code_simp

section \<open>Candidates that the validator rejects\<close>

lemma redact_secrets_rejected:
  assumes "validate call r s = Inr False"
  shows "map_of (substitutions (snd (redact_secrets call cs r))) s = map_of (substitutions r) s"
  using assms
proof (induction cs arbitrary: r)
  case Nil
  show ?case by simp
next
  case (Cons c cs)
  show ?case
  proof (cases "dict_contains (substitutions r) c")
    case True
    then show ?thesis using Cons.IH [of r] Cons.prems by simp
  next
    case absent: False
    show ?thesis
    proof (cases "validate call r c")
      case (Inl e)
      then show ?thesis using absent by simp
    next
      case (Inr ok)
      show ?thesis
      proof (cases ok)
        case False
        then show ?thesis using absent Inr Cons.IH [of r] Cons.prems by simp
      next
        case True
        have ne: "c \<noteq> s"
          using Inr True Cons.prems by auto
        have "validate call (assign r c) s = Inr False"
          using Cons.prems by (simp add: validate_assign)
        then have "map_of (substitutions (snd (redact_secrets call cs (assign r c)))) s
            = map_of (substitutions (assign r c)) s"
          by (rule Cons.IH)
        also have "\<dots> = map_of (substitutions r) s"
          using absent ne by (simp add: assign_substitutions map_add_def split: option.splits)
        finally show ?thesis
          using absent Inr True by simp
      qed
    qed
  qed
qed

lemma redact_rejected:
  assumes "validate call r s = Inr False"
  shows "map_of (substitutions (snd (redact re call r string))) s = map_of (substitutions r) s"
  unfolding redact_snd redact_patterns_flat using assms by (rule redact_secrets_rejected)

lemma redact_unmodified:
  assumes "redact re call r string = (Inr out, r')"
    and "\<forall>k \<in> fst ` set (substitutions r'). \<not> sublist k string"
  shows "out = string"
proof -
  obtain e r1 where disc: "redact_patterns re call string (patterns r) r = (e, r1)"
    by (cases "redact_patterns re call string (patterns r) r")
  have e: "e = None"
    using assms(1) disc by (cases e) (simp_all add: redact_def)
  have r1: "r1 = r'"
    using assms(1) disc e by (simp add: redact_def)
  have "redact_replace (substitutions r') (sorted_items (substitutions r')) string = Inr string"
    using assms(2) by (intro redact_replace_absent) (simp_all add: sorted_items_set)
  then show ?thesis
    using assms(1) disc e r1 by (simp add: redact_def)
qed

text \<open>
  Claim C5, as amended.  With a validator configured, a candidate is accepted exactly
  when the validator exits with status 0; any other status rejects it.  For a
  candidate that the validator rejects, \<open>redact\<close> adds no entry: what the table holds
  for that candidate after the call is what it held before, also when the call ends
  with an exception, and meeting the candidate in the loop is the same as skipping it.
  The returned line is the input line with the entries of the table applied, so it is
  the unmodified input whenever no key of the table occurs in the line.
\<close>

theorem validator_rejection:
  assumes "validator r = Some v" and "v \<noteq> []" and "call v secret = Inr status"
  shows "validate call r secret = Inr (status = 0)
    \<and> (status \<noteq> 0 \<longrightarrow>
         map_of (substitutions (snd (redact re call r string))) secret
           = map_of (substitutions r) secret)
    \<and> (status \<noteq> 0 \<longrightarrow>
         (\<forall>rest. redact_secrets call (secret # rest) r = redact_secrets call rest r))
    \<and> (\<forall>out r'. redact re call r string = (Inr out, r')
           \<and> (\<forall>k \<in> fst ` set (substitutions r'). \<not> sublist k string) \<longrightarrow> out = string)"
proof -
  have v: "validate call r secret = Inr (status = 0)"
    using assms by (simp add: validate_def)
  have t: "map_of (substitutions (snd (redact re call r string))) secret
           = map_of (substitutions r) secret" if "status \<noteq> 0"
    using v that by (intro redact_rejected) simp
  have s: "redact_secrets call (secret # rest) r = redact_secrets call rest r"
    if "status \<noteq> 0" for rest
    using v that by simp
  show ?thesis
  proof (intro conjI allI impI)
    show "validate call r secret = Inr (status = 0)" by (rule v)
  next
    assume "status \<noteq> 0"
    then show "map_of (substitutions (snd (redact re call r string))) secret
           = map_of (substitutions r) secret" by (rule t)
  next
    fix rest
    assume "status \<noteq> 0"
    then show "redact_secrets call (secret # rest) r = redact_secrets call rest r" by (rule s)
  next
    fix out r'
    assume "redact re call r string = (Inr out, r')
           \<and> (\<forall>k \<in> fst ` set (substitutions r'). \<not> sublist k string)"
    then show "out = string"
      using redact_unmodified [of re call r string out r'] by blast
  qed
qed

theorem validator_rejection_witness:
  "validator ip_redacter = Some ''ipv4_address''
   \<and> ''ipv4_address'' \<noteq> []
   \<and> one_validator ''ipv4_address'' ''10.10.299.1'' = Inr 1
   \<and> validate one_validator ip_redacter ''10.10.299.1'' = Inr ((1::int) = 0)
   \<and> map_of (substitutions (snd (redact py_re one_validator ip_redacter ''10.10.299.1'')))
        ''10.10.299.1'' = map_of (substitutions ip_redacter) ''10.10.299.1''
   \<and> redact py_re one_validator ip_redacter ''10.10.299.1'' = (Inr ''10.10.299.1'', ip_redacter)"
proof -
  have h1: "validator ip_redacter = Some ''ipv4_address''"
    by (simp add: ip_redacter_def)
  have h2: "''ipv4_address'' \<noteq> []"
    by simp
  have h3: "one_validator ''ipv4_address'' ''10.10.299.1'' = Inr 1"
    by (simp add: one_validator_def)
  have e: "redact py_re one_validator ip_redacter ''10.10.299.1'' = (Inr ''10.10.299.1'', ip_redacter)"
    by code_simp
  note t = validator_rejection [where r = ip_redacter and v = "''ipv4_address''"
      and call = one_validator and secret = "''10.10.299.1''" and status = 1
      and re = py_re and string = "''10.10.299.1''", OF h1 h2 h3]
  have a: "validate one_validator ip_redacter ''10.10.299.1'' = Inr ((1::int) = 0)"
    using t by (rule conjunct1)
  have "(1::int) \<noteq> 0 \<longrightarrow>
      map_of (substitutions (snd (redact py_re one_validator ip_redacter ''10.10.299.1'')))
        ''10.10.299.1'' = map_of (substitutions ip_redacter) ''10.10.299.1''"
    using t by (rule conjunct2 [THEN conjunct1])
  then have b: "map_of (substitutions (snd (redact py_re one_validator ip_redacter ''10.10.299.1'')))
        ''10.10.299.1'' = map_of (substitutions ip_redacter) ''10.10.299.1''"
    by simp
  show ?thesis
    using h1 h2 h3 a b e by (intro conjI)
qed

text \<open>
  Claim C5 as it was stated says that the input line is left unmodified whenever the
  validator rejects a candidate.  With the table \<open>{'10.10': 'net'}\<close> given at
  construction, the only candidate of the line \<open>10.10.299.1\<close> is rejected with status
  1 and nothing is added to the table, yet \<open>redact\<close> returns \<open>net.299.1\<close>: the
  replacement phase applies the entries of the table to the text of the rejected
  candidate as to any other text.
\<close>

theorem validator_rejection_counterexample:
  "Redacter_init py_re ''redact'' (Some [dotted_quad]) (Some [(''10.10'', ''net'')])
       (Some ''ipv4_address'') = Inr seeded_ip_redacter
   \<and> candidates py_re seeded_ip_redacter ''10.10.299.1'' = [''10.10.299.1'']
   \<and> one_validator ''ipv4_address'' ''10.10.299.1'' = Inr 1
   \<and> redact py_re one_validator seeded_ip_redacter ''10.10.299.1''
       = (Inr ''net.299.1'', seeded_ip_redacter)
   \<and> ''net.299.1'' \<noteq> ''10.10.299.1''"
  by code_simp

section \<open>Redacters without a validator\<close>


















section \<open>Construction\<close>

lemma compile_regex_valid:
  assumes "valid_regex re p"
  shows "(compile_regex re p = Inl AttributeError \<longleftrightarrow> many_groups re p)
    \<and> (\<not> many_groups re p \<longrightarrow> (\<exists>c. compile_regex re p = Inr c))"
  using assms
  by (auto simp: valid_regex_def many_groups_def compile_regex_def split: sum.splits)

lemma compile_all_valid:
  assumes "\<forall>p \<in> set ps. valid_regex re p"
  shows "(compile_all re ps = Inl AttributeError \<longleftrightarrow> (\<exists>p \<in> set ps. many_groups re p))
    \<and> ((\<forall>p \<in> set ps. \<not> many_groups re p) \<longrightarrow> (\<exists>cs. compile_all re ps = Inr cs))"
  using assms
proof (induction ps)
  case Nil
  show ?case by simp
next
  case (Cons p ps)
  have p: "(compile_regex re p = Inl AttributeError \<longleftrightarrow> many_groups re p)
    \<and> (\<not> many_groups re p \<longrightarrow> (\<exists>c. compile_regex re p = Inr c))"
    using Cons.prems by (intro compile_regex_valid) simp
  have ih: "(compile_all re ps = Inl AttributeError \<longleftrightarrow> (\<exists>p \<in> set ps. many_groups re p))
    \<and> ((\<forall>p \<in> set ps. \<not> many_groups re p) \<longrightarrow> (\<exists>cs. compile_all re ps = Inr cs))"
    using Cons.prems by (intro Cons.IH) simp
  show ?case
  proof (cases "many_groups re p")
    case True
    then show ?thesis using p by simp
  next
    case False
    then obtain c where c: "compile_regex re p = Inr c"
      using p by blast
    show ?thesis
    proof (cases "compile_all re ps")
      case (Inl e)
      then show ?thesis using c False ih by auto
    next
      case (Inr cs)
      then show ?thesis using c False ih by auto
    qed
  qed
qed

lemma Redacter_init_cases:
  "Redacter_init re base pats subs v =
     (if falsy pats \<and> falsy subs then Inl AttributeError
      else case compile_all re (some_list pats) of
             Inl e \<Rightarrow> Inl e
           | Inr compiled \<Rightarrow>
               Inr \<lparr> substitution_string = base, patterns = compiled,
                     substitutions = some_list subs, counter = 0, validator = v \<rparr>)"
  by (cases pats; cases subs)
    (auto simp: Redacter_init_def falsy_def some_list_def split: sum.splits)

lemma compile_regex_accepted: "accepted re p \<longleftrightarrow> (\<exists>c. compile_regex re p = Inr c)"
  by (auto simp: accepted_def compile_regex_def split: sum.splits)

lemma compile_regex_error:
  "compile_regex re p = Inl e \<longleftrightarrow>
     re_compile re p = Inl e
     \<or> (many_groups re p \<and> e = AttributeError)
     \<or> (no_group re p \<and> re_compile re (''('' @ p @ '')'') = Inl e)"
  by (auto simp: many_groups_def no_group_def compile_regex_def split: sum.splits)

lemma accepted_cases:
  "\<not> accepted re p \<longleftrightarrow>
     (\<exists>e. re_compile re p = Inl e) \<or> many_groups re p
     \<or> (no_group re p \<and> (\<exists>e. re_compile re (''('' @ p @ '')'') = Inl e))"
  by (auto simp: accepted_def many_groups_def no_group_def split: sum.splits)

lemma compile_all_find:
  assumes "find (\<lambda>q. \<not> accepted re q) ps = Some p"
  shows "compile_all re ps = (case compile_regex re p of Inl e \<Rightarrow> Inl e | Inr c \<Rightarrow> Inr [])"
  using assms
proof (induction ps)
  case Nil
  then show ?case by simp
next
  case (Cons a ps)
  show ?case
  proof (cases "accepted re a")
    case True
    then obtain c where c: "compile_regex re a = Inr c"
      by (auto simp: compile_regex_accepted)
    have "find (\<lambda>q. \<not> accepted re q) ps = Some p"
      using Cons.prems True by simp
    then have ih: "compile_all re ps = (case compile_regex re p of Inl e \<Rightarrow> Inl e | Inr c \<Rightarrow> Inr [])"
      by (rule Cons.IH)
    have "\<not> accepted re p"
      using \<open>find (\<lambda>q. \<not> accepted re q) ps = Some p\<close> by (auto simp: find_Some_iff)
    then obtain e where "compile_regex re p = Inl e"
      using compile_regex_accepted [of re p] by (cases "compile_regex re p") auto
    then show ?thesis
      using c ih by simp
  next
    case False
    then have pa: "p = a"
      using Cons.prems by simp
    obtain e where "compile_regex re a = Inl e"
      using False compile_regex_accepted [of re a] by (cases "compile_regex re a") auto
    then show ?thesis
      using pa by simp
  qed
qed

lemma compile_all_accepted:
  "(\<exists>cs. compile_all re ps = Inr cs) \<longleftrightarrow> (\<forall>q \<in> set ps. accepted re q)"
proof (induction ps)
  case Nil
  show ?case by simp
next
  case (Cons a ps)
  show ?case
    using Cons.IH compile_regex_accepted [of re a]
    by (auto split: sum.splits)
qed

lemma parse_error: "parse stack s = Inl e \<Longrightarrow> e = ReError"
  by (induction stack s rule: parse.induct) (auto split: option.splits list.splits)

lemma py_compile_error: "re_compile py_re q \<noteq> Inl AttributeError"
  using parse_error [of "[open_frame False]" q AttributeError]
  by (auto simp: py_re_def py_compile_def)

text \<open>
  Claim C6, as amended.  Construction fails with the configuration error
  (\<open>AttributeError\<close>) when the Redacter is given neither patterns nor substitutions.
  Otherwise the supplied patterns are compiled in their order, and the first pattern that
  is not accepted decides: if \<open>re.compile\<close> refuses it, construction fails with the
  exception of \<open>re.compile\<close>; if it has more than one capturing group, construction
  fails with the configuration error; if it has no group and \<open>re.compile\<close> refuses
  the pattern wrapped in \<open>(\<close> and \<open>)\<close>, construction fails with the exception of that
  second call.  A pattern that is not accepted is of one of these three kinds.
  Construction succeeds exactly when patterns or substitutions are given and every
  supplied pattern is accepted.  For a library whose \<open>re.compile\<close> never raises
  \<open>AttributeError\<close>, the configuration error is raised exactly when patterns and
  substitutions are both missing or the first pattern that is not accepted has more
  than one group.  And when \<open>re.compile\<close> compiles every supplied pattern, and for
  every pattern without a group also the wrapped pattern, construction fails with the
  configuration error exactly when patterns and substitutions are both missing or some
  supplied pattern has more than one group, and otherwise it succeeds.
\<close>

theorem construction_errors:
  "(falsy pats \<and> falsy subs \<longrightarrow> Redacter_init re base pats subs v = Inl AttributeError)
   \<and> (\<not> (falsy pats \<and> falsy subs)
        \<and> find (\<lambda>q. \<not> accepted re q) (some_list pats) = Some p \<longrightarrow>
          (re_compile re p = Inl e \<longrightarrow> Redacter_init re base pats subs v = Inl e)
        \<and> (many_groups re p \<longrightarrow> Redacter_init re base pats subs v = Inl AttributeError)
        \<and> (no_group re p \<and> re_compile re (''('' @ p @ '')'') = Inl e
             \<longrightarrow> Redacter_init re base pats subs v = Inl e)
        \<and> ((\<exists>e'. re_compile re p = Inl e') \<or> many_groups re p
             \<or> (no_group re p \<and> (\<exists>e'. re_compile re (''('' @ p @ '')'') = Inl e'))))
   \<and> ((\<exists>r. Redacter_init re base pats subs v = Inr r)
        \<longleftrightarrow> \<not> (falsy pats \<and> falsy subs) \<and> (\<forall>q \<in> set (some_list pats). accepted re q))
   \<and> ((\<forall>q. re_compile re q \<noteq> Inl AttributeError) \<longrightarrow>
        (Redacter_init re base pats subs v = Inl AttributeError
           \<longleftrightarrow> (falsy pats \<and> falsy subs)
               \<or> (\<exists>q. find (\<lambda>q. \<not> accepted re q) (some_list pats) = Some q
                        \<and> many_groups re q)))
   \<and> ((\<forall>q \<in> set (some_list pats). valid_regex re q) \<longrightarrow>
        (Redacter_init re base pats subs v = Inl AttributeError
           \<longleftrightarrow> (falsy pats \<and> falsy subs) \<or> (\<exists>q \<in> set (some_list pats). many_groups re q))
        \<and> (Redacter_init re base pats subs v \<noteq> Inl AttributeError
             \<longrightarrow> (\<exists>r. Redacter_init re base pats subs v = Inr r)))"
proof (intro conjI impI)
  show "Redacter_init re base pats subs v = Inl AttributeError" if "falsy pats \<and> falsy subs"
    using that by (simp add: Redacter_init_cases)
next
  assume h: "\<not> (falsy pats \<and> falsy subs)
        \<and> find (\<lambda>q. \<not> accepted re q) (some_list pats) = Some p"
  then have init: "Redacter_init re base pats subs v
      = (case compile_regex re p of Inl e \<Rightarrow> Inl e | Inr c \<Rightarrow> Inr undefined)"
    using compile_all_find [of re "some_list pats" p] compile_regex_accepted [of re p]
    by (auto simp: Redacter_init_cases find_Some_iff split: sum.splits)
  show "Redacter_init re base pats subs v = Inl e" if "re_compile re p = Inl e"
    using that init compile_regex_error [of re p e] by simp
  show "Redacter_init re base pats subs v = Inl AttributeError" if "many_groups re p"
    using that init compile_regex_error [of re p AttributeError] by simp
  show "Redacter_init re base pats subs v = Inl e"
    if "no_group re p \<and> re_compile re (''('' @ p @ '')'') = Inl e"
    using that init compile_regex_error [of re p e] by simp
  have "\<not> accepted re p"
    using h by (auto simp: find_Some_iff)
  then show "(\<exists>e'. re_compile re p = Inl e') \<or> many_groups re p
      \<or> (no_group re p \<and> (\<exists>e'. re_compile re (''('' @ p @ '')'') = Inl e'))"
    by (simp only: accepted_cases)
next
  show "(\<exists>r. Redacter_init re base pats subs v = Inr r)
      \<longleftrightarrow> \<not> (falsy pats \<and> falsy subs) \<and> (\<forall>q \<in> set (some_list pats). accepted re q)"
    using compile_all_accepted [of re "some_list pats"]
    by (auto simp: Redacter_init_cases split: sum.splits)
next
  assume lib: "\<forall>q. re_compile re q \<noteq> Inl AttributeError"
  show "Redacter_init re base pats subs v = Inl AttributeError
      \<longleftrightarrow> (falsy pats \<and> falsy subs)
          \<or> (\<exists>q. find (\<lambda>q. \<not> accepted re q) (some_list pats) = Some q \<and> many_groups re q)"
  proof (cases "falsy pats \<and> falsy subs")
    case True
    then show ?thesis by (simp add: Redacter_init_cases)
  next
    case False
    show ?thesis
    proof (cases "find (\<lambda>q. \<not> accepted re q) (some_list pats)")
      case None
      then have "\<forall>q \<in> set (some_list pats). accepted re q"
        by (auto simp: find_None_iff)
      then obtain cs where "compile_all re (some_list pats) = Inr cs"
        using compile_all_accepted [of re "some_list pats"] by blast
      then show ?thesis
        using False None by (simp add: Redacter_init_cases)
    next
      case (Some q)
      have na: "\<not> accepted re q"
        using Some by (auto simp: find_Some_iff)
      then obtain e' where e': "compile_regex re q = Inl e'"
        using compile_regex_accepted [of re q] by (cases "compile_regex re q") auto
      have init: "Redacter_init re base pats subs v = Inl e'"
        using False compile_all_find [OF Some] e' by (auto simp: Redacter_init_cases)
      have "e' = AttributeError \<longleftrightarrow> many_groups re q"
        using e' lib compile_regex_error [of re q e']
        by (auto simp: many_groups_def no_group_def split: sum.splits)
      then show ?thesis
        using False Some init by auto
    qed
  qed
next
  assume valid: "\<forall>q \<in> set (some_list pats). valid_regex re q"
  note ca = compile_all_valid [OF valid]
  show "Redacter_init re base pats subs v = Inl AttributeError
         \<longleftrightarrow> (falsy pats \<and> falsy subs) \<or> (\<exists>q \<in> set (some_list pats). many_groups re q)"
    using ca by (auto simp: Redacter_init_cases split: sum.splits)
  show "\<exists>r. Redacter_init re base pats subs v = Inr r"
    if "Redacter_init re base pats subs v \<noteq> Inl AttributeError"
    using ca that by (auto simp: Redacter_init_cases split: sum.splits if_splits)
qed

text \<open>
  The theorem at work: no arguments at all; a pattern with two groups before a pattern
  that \<open>re.compile\<close> refuses, and after one; a refused pattern together with
  substitutions; the pattern \<open>(?x)a # c\<close>, which compiles without a group and is refused
  when wrapped; and two patterns that are accepted.
\<close>

theorem construction_errors_witness:
  "falsy (None :: string list option) \<and> falsy (None :: dict option)
   \<and> Redacter_init py_re ''redact'' None None None = Inl AttributeError
   \<and> find (\<lambda>q. \<not> accepted py_re q) [''secretA'', ''(a)(b)'', ''(''] = Some ''(a)(b)''
   \<and> many_groups py_re ''(a)(b)''
   \<and> Redacter_init py_re ''redact'' (Some [''secretA'', ''(a)(b)'', ''('']) None None
       = Inl AttributeError
   \<and> find (\<lambda>q. \<not> accepted py_re q) [''secretA'', ''(''] = Some ''(''
   \<and> re_compile py_re ''('' = Inl ReError
   \<and> Redacter_init py_re ''redact'' (Some [''secretA'', ''('']) (Some [(''test'', ''x'')]) None
       = Inl ReError
   \<and> find (\<lambda>q. \<not> accepted verbose_re q) [''(?x)a # c''] = Some ''(?x)a # c''
   \<and> no_group verbose_re ''(?x)a # c''
   \<and> re_compile verbose_re (''('' @ ''(?x)a # c'' @ '')'') = Inl ReError
   \<and> Redacter_init verbose_re ''redact'' (Some [''(?x)a # c'']) None None = Inl ReError
   \<and> accepted py_re ''secretA'' \<and> accepted py_re secret_colon
   \<and> (\<exists>r. Redacter_init py_re ''redact'' (Some [''secretA'', secret_colon]) None None = Inr r)
   \<and> (\<forall>q. re_compile py_re q \<noteq> Inl AttributeError)
   \<and> find (\<lambda>q. \<not> accepted py_re q) [''('', ''(a)(b)''] = Some ''(''
   \<and> \<not> many_groups py_re ''(''
   \<and> Redacter_init py_re ''redact'' (Some [''('', ''(a)(b)'']) None None \<noteq> Inl AttributeError
   \<and> valid_regex py_re ''secretA'' \<and> valid_regex py_re ''(a)(b)''
   \<and> Redacter_init py_re ''redact'' (Some [''secretA'', ''(a)(b)'']) None None
       = Inl AttributeError"
proof -
  have f1: "falsy (None :: string list option) \<and> falsy (None :: dict option)"
    by (simp add: falsy_def)
  have a1: "Redacter_init py_re ''redact'' None None None = Inl AttributeError"
    using f1 construction_errors [where pats = None and subs = None and re = py_re
        and base = "''redact''" and v = None]
    by blast
  have g2: "\<not> (falsy (Some [''secretA'', ''(a)(b)'', ''('']) \<and> falsy (None :: dict option))"
    by (simp add: falsy_def)
  have f2: "find (\<lambda>q. \<not> accepted py_re q) [''secretA'', ''(a)(b)'', ''(''] = Some ''(a)(b)''"
    by code_simp
  have m2: "many_groups py_re ''(a)(b)''"
    by code_simp
  have a2: "Redacter_init py_re ''redact'' (Some [''secretA'', ''(a)(b)'', ''('']) None None
       = Inl AttributeError"
    using g2 f2 m2
      construction_errors [where pats = "Some [''secretA'', ''(a)(b)'', ''('']" and subs = None
        and re = py_re and base = "''redact''" and v = None and p = "''(a)(b)''"]
    by (simp add: some_list_def)
  have g3: "\<not> (falsy (Some [''secretA'', ''(''])
      \<and> falsy (Some [(''test'', ''x'')] :: dict option))"
    by (simp add: falsy_def)
  have f3: "find (\<lambda>q. \<not> accepted py_re q) [''secretA'', ''(''] = Some ''(''"
    by code_simp
  have r3: "re_compile py_re ''('' = Inl ReError"
    by code_simp
  have a3: "Redacter_init py_re ''redact'' (Some [''secretA'', ''('']) (Some [(''test'', ''x'')])
       None = Inl ReError"
    using g3 f3 r3
      construction_errors [where pats = "Some [''secretA'', ''('']"
        and subs = "Some [(''test'', ''x'')]" and re = py_re and base = "''redact''"
        and v = None and p = "''(''" and e = ReError]
    by (simp add: some_list_def)
  have g4: "\<not> (falsy (Some [''(?x)a # c'']) \<and> falsy (None :: dict option))"
    by (simp add: falsy_def)
  have f4: "find (\<lambda>q. \<not> accepted verbose_re q) [''(?x)a # c''] = Some ''(?x)a # c''"
    by code_simp
  have n4: "no_group verbose_re ''(?x)a # c''"
    by code_simp
  have r4: "re_compile verbose_re (''('' @ ''(?x)a # c'' @ '')'') = Inl ReError"
    by code_simp
  have a4: "Redacter_init verbose_re ''redact'' (Some [''(?x)a # c'']) None None = Inl ReError"
    using g4 f4 n4 r4
      construction_errors [where pats = "Some [''(?x)a # c'']" and subs = None
        and re = verbose_re and base = "''redact''" and v = None and p = "''(?x)a # c''"
        and e = ReError]
    by (simp add: some_list_def)
  have g5: "\<not> (falsy (Some [''secretA'', secret_colon]) \<and> falsy (None :: dict option))"
    by (simp add: falsy_def)
  have c5: "accepted py_re ''secretA'' \<and> accepted py_re secret_colon"
    by code_simp
  have a5: "\<exists>r. Redacter_init py_re ''redact'' (Some [''secretA'', secret_colon]) None None
      = Inr r"
    using g5 c5
      construction_errors [where pats = "Some [''secretA'', secret_colon]" and subs = None
        and re = py_re and base = "''redact''" and v = None]
    by (simp add: some_list_def)
  have l6: "\<forall>q. re_compile py_re q \<noteq> Inl AttributeError"
    by (simp add: py_compile_error)
  have g6: "\<not> (falsy (Some [''('', ''(a)(b)'']) \<and> falsy (None :: dict option))"
    by (simp add: falsy_def)
  have f6: "find (\<lambda>q. \<not> accepted py_re q) [''('', ''(a)(b)''] = Some ''(''"
    by code_simp
  have m6: "\<not> many_groups py_re ''(''"
    by code_simp
  have a6: "Redacter_init py_re ''redact'' (Some [''('', ''(a)(b)'']) None None
      \<noteq> Inl AttributeError"
    using l6 g6 f6 m6
      construction_errors [where pats = "Some [''('', ''(a)(b)'']" and subs = None
        and re = py_re and base = "''redact''" and v = None]
    by (simp add: some_list_def)
  have v7: "valid_regex py_re ''secretA'' \<and> valid_regex py_re ''(a)(b)''"
    by code_simp
  have a7: "Redacter_init py_re ''redact'' (Some [''secretA'', ''(a)(b)'']) None None
       = Inl AttributeError"
    using v7 m2
      construction_errors [where pats = "Some [''secretA'', ''(a)(b)'']" and subs = None
        and re = py_re and base = "''redact''" and v = None]
    by (simp add: some_list_def)
  show ?thesis
    using f1 a1 f2 m2 a2 f3 r3 a3 f4 n4 r4 a4 c5 a5 l6 f6 m6 a6 v7 a7
    by (intro conjI) simp_all
qed

text \<open>
  Claim C6 as it was stated says that construction succeeds unless patterns and
  substitutions are both missing or a pattern has more than one group.  The pattern
  \<open>(\<close> is supplied alone and has no two groups, yet construction does not succeed: it
  ends with \<open>re.error\<close>.  And with the patterns \<open>(\<close> and \<open>(a)(b)\<close>, of which the second
  has two groups, construction ends with \<open>re.error\<close>, not with the configuration
  error.
\<close>

theorem construction_errors_counterexample:
  "\<not> falsy (Some [''(''])
   \<and> re_compile py_re ''('' = Inl ReError
   \<and> Redacter_init py_re ''redact'' (Some [''('']) None None = Inl ReError
   \<and> (case re_compile py_re ''(a)(b)'' of Inl e \<Rightarrow> 0 | Inr c \<Rightarrow> re_groups py_re c) = 2
   \<and> Redacter_init py_re ''redact'' (Some [''('', ''(a)(b)'']) None None = Inl ReError"
  by code_simp

section \<open>Patterns without a group\<close>

lemma compile_all_map:
  "map (compile_regex re) xs = map (compile_regex re) ys \<Longrightarrow> compile_all re xs = compile_all re ys"
proof (induction xs arbitrary: ys)
  case Nil
  then show ?case by simp
next
  case (Cons x xs)
  then obtain y ys' where ys: "ys = y # ys'"
    by (cases ys) auto
  have "compile_regex re x = compile_regex re y"
    and "compile_all re xs = compile_all re ys'"
    using Cons.prems Cons.IH [of ys'] unfolding ys by simp_all
  then show ?case
    unfolding ys by (simp split: sum.splits)
qed

lemma compile_regex_wrapped:
  assumes "re_compile re p = Inr c" and "re_groups re c = 0"
    and "\<forall>c'. re_compile re (''('' @ p @ '')'') = Inr c' \<longrightarrow> re_groups re c' = 1"
  shows "compile_regex re p = compile_regex re (''('' @ p @ '')'')"
proof (cases "re_compile re (''('' @ p @ '')'')")
  case (Inl e)
  then show ?thesis
    using assms(1,2) by (simp add: compile_regex_def)
next
  case (Inr c')
  then have "re_groups re c' = 1"
    using assms(3) by blast
  then show ?thesis
    using assms(1,2) Inr by (simp add: compile_regex_def)
qed

text \<open>
  Claim C7.  Let a pattern compile with no capturing group, and let \<open>re.compile\<close>
  count one group in the pattern wrapped in parentheses, the one just added.  Then
  \<open>compile_regex\<close> gives the same result for the pattern and for the pattern wrapped
  by hand, so a Redacter constructed with the one, at any place among its patterns, is
  the Redacter constructed with the other: construction fails for both or gives the
  same Redacter, and then every run of \<open>redact\<close> calls returns the same lines and ends
  with the same table and counter.
\<close>

theorem zero_group_wrapping:
  assumes "re_compile re p = Inr c" and "re_groups re c = 0"
    and "\<forall>c'. re_compile re (''('' @ p @ '')'') = Inr c' \<longrightarrow> re_groups re c' = 1"
  shows "compile_regex re p = compile_regex re (''('' @ p @ '')'')
    \<and> Redacter_init re base (Some (ps @ p # qs)) subs v
        = Redacter_init re base (Some (ps @ (''('' @ p @ '')'') # qs)) subs v
    \<and> (\<forall>r r'. Redacter_init re base (Some (ps @ p # qs)) subs v = Inr r
          \<and> Redacter_init re base (Some (ps @ (''('' @ p @ '')'') # qs)) subs v = Inr r'
          \<longrightarrow> r = r' \<and> redact_lines re call r lines = redact_lines re call r' lines)"
proof -
  have w: "compile_regex re p = compile_regex re (''('' @ p @ '')'')"
    using assms by (rule compile_regex_wrapped)
  then have "compile_all re (ps @ p # qs) = compile_all re (ps @ (''('' @ p @ '')'') # qs)"
    by (intro compile_all_map) simp
  then have i: "Redacter_init re base (Some (ps @ p # qs)) subs v
        = Redacter_init re base (Some (ps @ (''('' @ p @ '')'') # qs)) subs v"
    by (simp add: Redacter_init_def falsy_def)
  show ?thesis
    using w i by auto
qed

theorem zero_group_wrapping_witness:
  "re_compile py_re ''secretA'' = Inr (mk_seq (map (\<lambda>c. Atom (Lit c)) ''secretA''))
   \<and> re_groups py_re (mk_seq (map (\<lambda>c. Atom (Lit c)) ''secretA'')) = 0
   \<and> re_compile py_re (''('' @ ''secretA'' @ '')'')
       = Inr (Group (mk_seq (map (\<lambda>c. Atom (Lit c)) ''secretA'')))
   \<and> re_groups py_re (Group (mk_seq (map (\<lambda>c. Atom (Lit c)) ''secretA''))) = 1
   \<and> compile_regex py_re ''secretA'' = compile_regex py_re (''('' @ ''secretA'' @ '')'')
   \<and> Redacter_init py_re ''redact'' (Some ([] @ ''secretA'' # [secret_colon])) None None
       = Redacter_init py_re ''redact''
           (Some ([] @ (''('' @ ''secretA'' @ '')'') # [secret_colon])) None None
   \<and> Redacter_init py_re ''redact'' (Some ([] @ ''secretA'' # [secret_colon])) None None
       = Inr two_pattern_redacter"
proof -
  have h1: "re_compile py_re ''secretA'' = Inr (mk_seq (map (\<lambda>c. Atom (Lit c)) ''secretA''))"
    by code_simp
  have h2: "re_groups py_re (mk_seq (map (\<lambda>c. Atom (Lit c)) ''secretA'')) = 0"
    by code_simp
  have w: "re_compile py_re (''('' @ ''secretA'' @ '')'')
       = Inr (Group (mk_seq (map (\<lambda>c. Atom (Lit c)) ''secretA'')))"
    by code_simp
  have g: "re_groups py_re (Group (mk_seq (map (\<lambda>c. Atom (Lit c)) ''secretA''))) = 1"
    by code_simp
  have h3: "\<forall>c'. re_compile py_re (''('' @ ''secretA'' @ '')'') = Inr c' \<longrightarrow> re_groups py_re c' = 1"
    using w g by simp
  have e: "Redacter_init py_re ''redact'' (Some ([] @ ''secretA'' # [secret_colon])) None None
       = Inr two_pattern_redacter"
    by code_simp
  note t = zero_group_wrapping [OF h1 h2 h3, of "''redact''" "[]" "[secret_colon]" None None]
  have a: "compile_regex py_re ''secretA'' = compile_regex py_re (''('' @ ''secretA'' @ '')'')"
    using t by (rule conjunct1)
  have b: "Redacter_init py_re ''redact'' (Some ([] @ ''secretA'' # [secret_colon])) None None
       = Redacter_init py_re ''redact''
           (Some ([] @ (''('' @ ''secretA'' @ '')'') # [secret_colon])) None None"
    using t by (rule conjunct2 [THEN conjunct1])
  show ?thesis
    using h1 h2 w g a b e by (intro conjI)
qed

section \<open>The substitutions file\<close>

lemma str_split_nonempty: "str_split c s \<noteq> []"
  by (induction s) auto

lemma str_split_absent: "c \<notin> set b \<Longrightarrow> str_split c b = [b]"
  by (induction b) auto

lemma str_split_last:
  assumes "c \<notin> set b"
  shows "str_split c (a @ c # b) = str_split c a @ [b]"
proof (induction a)
  case Nil
  show ?case using assms by (simp add: str_split_absent)
next
  case (Cons x a)
  obtain q qs where q: "str_split c a = q # qs"
    using str_split_nonempty [of c a] by (cases "str_split c a") auto
  show ?case
    using Cons q by simp
qed

lemma str_join_split: "str_join [c] (str_split c a) = a"
proof (induction a)
  case Nil
  show ?case by simp
next
  case (Cons x a)
  obtain q qs where q: "str_split c a = q # qs"
    using str_split_nonempty [of c a] by (cases "str_split c a") auto
  show ?case
    using Cons q by (cases qs) auto
qed

lemma substitution_entry_last:
  assumes "CHR ''='' \<notin> set b"
  shows "substitution_entry (str_split (CHR ''='') (a @ ''='' @ b)) = (str_strip a, str_strip b)"
proof -
  have "str_split (CHR ''='') (a @ ''='' @ b) = str_split (CHR ''='') a @ [b]"
    using str_split_last [OF assms, of a] by simp
  then show ?thesis
    using str_join_split [of "CHR ''=''" a] by (simp add: substitution_entry_def)
qed

lemma dict_setitem_map_of: "map_of (dict_setitem d k v) = (map_of d)(k \<mapsto> v)"
  by (induction d) auto

lemma dict_of_fold:
  "map_of (foldl (\<lambda>d (k, v). dict_setitem d k v) d0 es) = map_of (rev es @ d0)"
proof (induction es arbitrary: d0)
  case Nil
  show ?case by simp
next
  case (Cons e es)
  obtain k v where e: "e = (k, v)"
    by (cases e)
  have "map_of (rev es @ dict_setitem d0 k v) = map_of (rev es @ [(k, v)] @ d0)"
    by (simp add: dict_setitem_map_of map_add_upd_left)
  then show ?case
    using Cons [of "dict_setitem d0 k v"] e by simp
qed

lemma dict_of_map_of: "map_of (dict_of es) = map_of (rev es)"
  using dict_of_fold [of "[]" es] by (simp add: dict_of_def)

lemma read_uncommented_lines_set:
  "l \<in> set (read_uncommented_lines fs f) \<Longrightarrow> l \<noteq> [] \<and> \<not> startswith l ''#''"
  by (auto simp: read_uncommented_lines_def split: option.splits)

lemma create_substitutions:
  assumes "create re fs base regex_file substitutions_file validator_file = Inr (Some r)"
  shows "substitutions r
     = dict_of (map (\<lambda>line. substitution_entry (str_split (CHR ''='') line))
                    (read_uncommented_lines fs substitutions_file))"
  using assms
  by (auto simp: create_def Redacter_init_def falsy_def Let_def split: sum.splits if_splits)

lemma map_of_later_wins:
  assumes "\<forall>e \<in> set post. fst e \<noteq> k"
  shows "map_of (rev (pre @ (k, v) # post)) k = Some v"
proof -
  have "map_of (rev post) k = None"
    using assms by (auto simp: map_of_eq_None_iff image_iff)
  then show ?thesis
    by (simp add: map_add_def)
qed

text \<open>
  Claim C8.  \<open>create\<close> reads the substitutions file line by line; the lines it keeps
  are stripped, not blank and no comments.  A line that holds an \<open>=\<close> is split at its
  last \<open>=\<close>: the cleartext is all that stands before it, further \<open>=\<close> included, the
  placeholder is what follows it, and both are stripped of the white space around
  them.  The table of the Redacter is the dict of these entries, so the cleartext of
  such a line maps to its placeholder unless a later line has the same cleartext.  (A
  line without any \<open>=\<close> gives the empty cleartext with the whole line as placeholder.)
\<close>

theorem substitutions_file_parsing:
  "(CHR ''='' \<notin> set b \<longrightarrow>
      substitution_entry (str_split (CHR ''='') (a @ ''='' @ b)) = (str_strip a, str_strip b))
   \<and> (CHR ''='' \<notin> set l \<longrightarrow>
      substitution_entry (str_split (CHR ''='') l) = ([], str_strip l))
   \<and> (\<forall>line \<in> set (read_uncommented_lines fs substitutions_file).
        line \<noteq> [] \<and> \<not> startswith line ''#'')
   \<and> (create re fs base regex_file substitutions_file validator_file = Inr (Some r) \<longrightarrow>
        substitutions r
          = dict_of (map (\<lambda>line. substitution_entry (str_split (CHR ''='') line))
                         (read_uncommented_lines fs substitutions_file)))
   \<and> (create re fs base regex_file substitutions_file validator_file = Inr (Some r)
        \<and> read_uncommented_lines fs substitutions_file = pre @ (a @ ''='' @ b) # post
        \<and> CHR ''='' \<notin> set b
        \<and> (\<forall>line \<in> set post.
              fst (substitution_entry (str_split (CHR ''='') line)) \<noteq> str_strip a)
        \<longrightarrow> map_of (substitutions r) (str_strip a) = Some (str_strip b))"
proof (intro conjI impI ballI)
  assume "CHR ''='' \<notin> set b"
  then show "substitution_entry (str_split (CHR ''='') (a @ ''='' @ b)) = (str_strip a, str_strip b)"
    by (rule substitution_entry_last)
next
  assume "CHR ''='' \<notin> set l"
  then show "substitution_entry (str_split (CHR ''='') l) = ([], str_strip l)"
    by (simp add: str_split_absent substitution_entry_def str_strip_def)
next
  fix line
  assume "line \<in> set (read_uncommented_lines fs substitutions_file)"
  then show "line \<noteq> []" and "\<not> startswith line ''#''"
    using read_uncommented_lines_set by blast+
next
  assume "create re fs base regex_file substitutions_file validator_file = Inr (Some r)"
  then show "substitutions r
          = dict_of (map (\<lambda>line. substitution_entry (str_split (CHR ''='') line))
                         (read_uncommented_lines fs substitutions_file))"
    by (rule create_substitutions)
next
  assume h: "create re fs base regex_file substitutions_file validator_file = Inr (Some r)
        \<and> read_uncommented_lines fs substitutions_file = pre @ (a @ ''='' @ b) # post
        \<and> CHR ''='' \<notin> set b
        \<and> (\<forall>line \<in> set post.
              fst (substitution_entry (str_split (CHR ''='') line)) \<noteq> str_strip a)"
  define entry where "entry = (\<lambda>line. substitution_entry (str_split (CHR ''='') line))"
  have e: "entry (a @ ''='' @ b) = (str_strip a, str_strip b)"
    using h substitution_entry_last unfolding entry_def by blast
  have "substitutions r = dict_of (map entry (pre @ (a @ ''='' @ b) # post))"
    using h create_substitutions [of re fs base regex_file substitutions_file validator_file r]
    unfolding entry_def by simp
  then have "map_of (substitutions r)
      = map_of (rev (map entry pre @ (str_strip a, str_strip b) # map entry post))"
    using e by (simp add: dict_of_map_of)
  moreover have "\<forall>x \<in> set (map entry post). fst x \<noteq> str_strip a"
    using h unfolding entry_def by auto
  ultimately show "map_of (substitutions r) (str_strip a) = Some (str_strip b)"
    using map_of_later_wins [of "map entry post" "str_strip a" "map entry pre" "str_strip b"]
    by simp
qed

theorem substitutions_file_parsing_witness:
  "CHR ''='' \<notin> set '' x''
   \<and> substitution_entry (str_split (CHR ''='') (''a=b '' @ ''='' @ '' x''))
       = (str_strip ''a=b '', str_strip '' x'')
   \<and> str_strip ''a=b '' = ''a=b'' \<and> str_strip '' x'' = ''x''
   \<and> read_uncommented_lines example_files (Some ''substitutions/secret'')
       = [''a=b = x'', ''secretA = y'']
   \<and> create py_re example_files ''redact'' None (Some ''substitutions/secret'') None
       = Inr (Some \<lparr> substitution_string = ''redact'', patterns = [],
                      substitutions = [(''a=b'', ''x''), (''secretA'', ''y'')],
                      counter = 0, validator = None \<rparr>)"
proof -
  have h: "CHR ''='' \<notin> set '' x''"
    by simp
  have "CHR ''='' \<notin> set '' x'' \<longrightarrow>
      substitution_entry (str_split (CHR ''='') (''a=b '' @ ''='' @ '' x''))
       = (str_strip ''a=b '', str_strip '' x'')"
    using substitutions_file_parsing [of "'' x''" "''a=b ''"] by (rule conjunct1)
  then have a: "substitution_entry (str_split (CHR ''='') (''a=b '' @ ''='' @ '' x''))
       = (str_strip ''a=b '', str_strip '' x'')"
    using h by blast
  have s: "str_strip ''a=b '' = ''a=b'' \<and> str_strip '' x'' = ''x''"
    by code_simp
  have l: "read_uncommented_lines example_files (Some ''substitutions/secret'')
       = [''a=b = x'', ''secretA = y'']"
    by code_simp
  have c: "create py_re example_files ''redact'' None (Some ''substitutions/secret'') None
       = Inr (Some \<lparr> substitution_string = ''redact'', patterns = [],
                      substitutions = [(''a=b'', ''x''), (''secretA'', ''y'')],
                      counter = 0, validator = None \<rparr>)"
    by code_simp
  show ?thesis
    using h a s l c by (intro conjI) simp_all
qed

section \<open>The module py_re and patterns without a group\<close>

text \<open>
  The module \<open>py_re\<close> has the property that claim C7 assumes of \<open>re\<close>: when a pattern
  compiles, the pattern wrapped in parentheses compiles to the group around it, so it
  has one group more; and for a pattern without a group, \<open>findall\<close> returns for the
  wrapped pattern what it returns for the pattern itself, the whole text of each
  match.
\<close>

lemma close_frame_capturing [simp]: "close_frame (f \<lparr> frame_capturing := b \<rparr>) = close_frame f"
  by (simp add: close_frame_def)

lemma push_item_capturing [simp]:
  "push_item x (f \<lparr> frame_capturing := b \<rparr>) = (push_item x f) \<lparr> frame_capturing := b \<rparr>"
  by (simp add: push_item_def)

lemma parse_step_skip:
  "parse_step stack c cs = Some (stack', skip) \<Longrightarrow> skip \<le> length cs"
  by (cases stack; cases "token_of c")
    (auto split: list.splits if_splits option.splits)

lemma parse_step_wrapped_single:
  assumes "parse_step [f] c cs = Some (stack', skip)"
  shows "parse_step [f \<lparr> frame_capturing := True \<rparr>, g] c (cs @ q)
     = Some (wrap_stack g stack', skip)"
  using assms
  by (cases "token_of c") (auto split: list.splits if_splits option.splits)

lemma parse_step_wrapped_more:
  assumes "parse_step (f # f' # st) c cs = Some (stack', skip)"
  shows "parse_step (f # wrap_stack g (f' # st)) c (cs @ q)
     = Some (wrap_stack g stack', skip)"
proof (cases st)
  case Nil
  then show ?thesis
    using assms by (cases "token_of c") (auto split: list.splits if_splits option.splits)
next
  case (Cons f'' st'')
  then show ?thesis
    using assms by (cases "token_of c") (auto split: list.splits if_splits option.splits)
qed

lemma parse_step_wrapped:
  assumes "parse_step stack c cs = Some (stack', skip)"
  shows "parse_step (wrap_stack g stack) c (cs @ q) = Some (wrap_stack g stack', skip)"
proof (cases stack)
  case Nil
  then show ?thesis using assms by simp
next
  case (Cons f st)
  then show ?thesis
    using assms parse_step_wrapped_single parse_step_wrapped_more
    by (cases st) simp_all
qed

lemma parse_wrapped:
  "parse stack p = Inr c \<Longrightarrow>
     parse (wrap_stack g stack) (p @ '')'') = Inr (close_frame (push_item (Group c) g))"
proof (induction stack p rule: parse.induct)
  case (1 stack)
  then obtain f where "stack = [f]"
    by (auto split: list.splits)
  then show ?case
    using "1.prems" by (simp add: token_of_def)
next
  case (2 stack ch cs)
  then obtain stack' skip where step: "parse_step stack ch cs = Some (stack', skip)"
    by (cases "parse_step stack ch cs") auto
  then have "parse stack' (drop skip cs) = Inr c"
    using "2.prems" by simp
  then have "parse (wrap_stack g stack') (drop skip cs @ '')'')
      = Inr (close_frame (push_item (Group c) g))"
    using "2.IH" step by simp
  moreover have "drop skip (cs @ '')'') = drop skip cs @ '')''"
    using parse_step_skip [OF step] by simp
  ultimately show ?case
    using parse_step_wrapped [OF step, of g "'')''"] by simp
qed

lemma py_compile_wrapped:
  assumes "py_compile p = Inr c"
  shows "py_compile (''('' @ p @ '')'') = Inr (Group c)"
proof -
  have first: "parse_step [open_frame False] (CHR ''('') (p @ '')'')
      = Some ([open_frame True, open_frame False], 0)"
  proof (cases p)
    case Nil
    then show ?thesis by (simp add: token_of_def)
  next
    case (Cons d ds)
    have "d \<noteq> CHR ''?''"
    proof
      assume "d = CHR ''?''"
      then have "py_compile p = Inl ReError"
        using Cons by (simp add: py_compile_def token_of_def open_frame_def)
      then show False using assms by simp
    qed
    then show ?thesis
      using Cons by (simp add: token_of_def)
  qed
  have "parse (wrap_stack (open_frame False) [open_frame False]) (p @ '')'')
      = Inr (close_frame (push_item (Group c) (open_frame False)))"
    using assms unfolding py_compile_def by (rule parse_wrapped)
  then have "parse [open_frame True, open_frame False] (p @ '')'') = Inr (Group c)"
    by (simp add: open_frame_def close_frame_def push_item_def)
  then show ?thesis
    using first by (simp add: py_compile_def)
qed

lemma findall_from_Group:
  "py_groups a = 0 \<Longrightarrow> findall_from n (Group a) s = findall_from n a s"
proof (induction n a s rule: findall_from.induct)
  case (1 n r s)
  have G: "rmatch n (Group r) (s, None)
      = map (\<lambda>(s', g'). (s', Some (take (length s - length s') s))) (rmatch n r (s, None))"
    by simp
  show ?case
  proof (cases "rmatch n r (s, None)")
    case Nil
    show ?thesis
    proof (cases s)
      case empty: Nil
      show ?thesis
        unfolding findall_from.simps [of n "Group r" s] findall_from.simps [of n r s] G Nil
        using empty by simp
    next
      case (Cons c cs)
      have "findall_from n (Group r) cs = findall_from n r cs"
        using "1.IH"(1) [OF Nil Cons "1.prems"] .
      then show ?thesis
        unfolding findall_from.simps [of n "Group r" s] findall_from.simps [of n r s] G Nil
        using Cons by simp
    qed
  next
    case (Cons m ms)
    obtain s' g where m: "m = (s', g)"
      by (cases m)
    have step: "(if length s' < length s then findall_from n (Group r) s'
                 else case s of [] \<Rightarrow> [] | c # cs \<Rightarrow> findall_from n (Group r) cs)
        = (if length s' < length s then findall_from n r s'
                 else case s of [] \<Rightarrow> [] | c # cs \<Rightarrow> findall_from n r cs)"
    proof (cases "length s' < length s")
      case True
      then show ?thesis
        using "1.IH"(2) [OF Cons m [symmetric] True "1.prems"]
        by simp
    next
      case False
      show ?thesis
      proof (cases s)
        case Nil
        then show ?thesis using False by simp
      next
        case cons: (Cons c cs)
        then show ?thesis
          using False "1.IH"(3) [OF Cons m [symmetric] False cons "1.prems"]
          by simp
      qed
    qed
    show ?thesis
      unfolding findall_from.simps [of n "Group r" s] findall_from.simps [of n r s] G Cons m
      using step "1.prems" by simp
  qed
qed

lemma py_re_wrapping:
  assumes "re_compile py_re p = Inr c" and "re_groups py_re c = 0"
  shows "re_compile py_re (''('' @ p @ '')'') = Inr (Group c)"
    and "re_groups py_re (Group c) = 1"
    and "re_findall py_re (Group c) string = re_findall py_re c string"
  using assms py_compile_wrapped [of p c] findall_from_Group [of c "length string" string]
  by (simp_all add: py_re_def py_findall_def)

end
